theory Spec2Isabelle
  imports Main "HOL-Library.AList" "HOL-Library.Sublist"
begin

section \<open>Python values and built-ins used by the game engine\<close>

text \<open>
  The engine keeps everything it knows in the values that \<^verbatim>\<open>json.load\<close> returns:
  dictionaries with string keys, lists, strings, integers, booleans and \<^verbatim>\<open>None\<close>.
  A dictionary is an association list with distinct keys, in insertion order (Python
  dictionaries keep it, and the order is visible when a dictionary is printed).
  A floating-point number is carried as the literal it was read from; arithmetic,
  truth value and comparison of such a number are outside what is modelled and are
  reported as \<open>Unmodelled\<close>, never as a result.
  Strings are lists of code points below 256.
\<close>

datatype json =
    JNull
  | JBool bool
  | JInt int
  | JFloat string
  | JString string
  | JArray "json list"
  | JObject "(string \<times> json) list"

type_synonym pydict = "(string \<times> json) list"

datatype py_error =
    TypeError
  | AttributeError
  | IndexError
  | JSONDecodeError
  | FileNotFoundError
  | Unmodelled
  | OutOfFuel

subsection \<open>Dictionaries\<close>

definition dict_get :: "pydict \<Rightarrow> string \<Rightarrow> json option" where
  "dict_get d k = map_of d k"

text \<open>\<^verbatim>\<open>d[k] = v\<close>: an existing key keeps its position, a new key goes last.\<close>

definition dict_set :: "pydict \<Rightarrow> string \<Rightarrow> json \<Rightarrow> pydict" where
  "dict_set d k v = AList.update k v d"

text \<open>\<^verbatim>\<open>d.get(k, default)\<close>\<close>

definition dict_get_default :: "pydict \<Rightarrow> string \<Rightarrow> json \<Rightarrow> json" where
  "dict_get_default d k dflt = (case dict_get d k of None \<Rightarrow> dflt | Some v \<Rightarrow> v)"

text \<open>\<^verbatim>\<open>d.setdefault(k, default)\<close>: the dictionary afterwards, and the value returned.\<close>

definition setdefault :: "pydict \<Rightarrow> string \<Rightarrow> json \<Rightarrow> pydict \<times> json" where
  "setdefault d k dflt =
     (case dict_get d k of None \<Rightarrow> (dict_set d k dflt, dflt) | Some v \<Rightarrow> (d, v))"

subsection \<open>Strings\<close>

definition startswith :: "string \<Rightarrow> string \<Rightarrow> bool" where
  "startswith s p = (take (length p) s = p)"

text \<open>\<^verbatim>\<open>s.split(sep, 1)\<close> for a separator of one character.\<close>

definition split1 :: "char \<Rightarrow> string \<Rightarrow> string list" where
  "split1 sep s =
     (if sep \<in> set s
      then [takeWhile (\<lambda>c. c \<noteq> sep) s, tl (dropWhile (\<lambda>c. c \<noteq> sep) s)]
      else [s])"

text \<open>\<^verbatim>\<open>xs[1]\<close>\<close>

definition index1 :: "'a list \<Rightarrow> py_error + 'a" where
  "index1 xs = (case xs of _ # y # _ \<Rightarrow> Inr y | _ \<Rightarrow> Inl IndexError)"

text \<open>The characters \<^verbatim>\<open>str.isspace\<close> accepts, among the code points below 256.\<close>

definition isspace :: "char \<Rightarrow> bool" where
  "isspace c = ((of_char c :: nat) \<in> {9, 10, 11, 12, 13, 28, 29, 30, 31, 32, 133, 160})"

definition strip :: "string \<Rightarrow> string" where
  "strip s = rev (dropWhile isspace (rev (dropWhile isspace s)))"

text \<open>\<^verbatim>\<open>item in s\<close> for two strings: \<open>item\<close> occurs in \<open>s\<close> as a block.\<close>

fun str_contains :: "string \<Rightarrow> string \<Rightarrow> bool" where
  "str_contains [] item = (item = [])"
| "str_contains (c # cs) item = (startswith (c # cs) item \<or> str_contains cs item)"

text \<open>
  \<^verbatim>\<open>int(s)\<close> for a string: white space around the number is dropped (the file
  separators 28 to 31 are white space for \<^verbatim>\<open>strip\<close> but not here), one sign is
  allowed, and single underscores may stand between digits. \<open>None\<close> is
  \<^verbatim>\<open>ValueError\<close>. The interpreter's limit on the number of digits is not modelled.
\<close>

definition int_space :: "char \<Rightarrow> bool" where
  "int_space c = ((of_char c :: nat) \<in> {9, 10, 11, 12, 13, 32, 133, 160})"

definition is_digit :: "char \<Rightarrow> bool" where
  "is_digit c = (48 \<le> (of_char c :: nat) \<and> (of_char c :: nat) \<le> 57)"

definition digit_val :: "char \<Rightarrow> int" where
  "digit_val c = int (of_char c) - 48"

definition digits_val :: "string \<Rightarrow> int" where
  "digits_val ds = foldl (\<lambda>acc c. 10 * acc + digit_val c) 0 ds"

fun int_body_ok :: "string \<Rightarrow> bool" where
  "int_body_ok [] = False"
| "int_body_ok [c] = is_digit c"
| "int_body_ok (c # d # cs) =
     (if is_digit c then int_body_ok (d # cs)
      else c = CHR ''_'' \<and> is_digit d \<and> int_body_ok (d # cs))"

definition py_int :: "string \<Rightarrow> int option" where
  "py_int s =
     (let t = rev (dropWhile int_space (rev (dropWhile int_space s)));
          neg = (case t of c # _ \<Rightarrow> c = CHR ''-'' | [] \<Rightarrow> False);
          body = (case t of c # r \<Rightarrow> if c = CHR ''-'' \<or> c = CHR ''+'' then r else t | [] \<Rightarrow> t)
      in if body \<noteq> [] \<and> is_digit (hd body) \<and> int_body_ok body
         then Some ((if neg then - 1 else 1) * digits_val (filter (\<lambda>c. c \<noteq> CHR ''_'') body))
         else None)"

subsection \<open>Numbers\<close>

text \<open>
  \<^verbatim>\<open>x + d\<close> for an integer \<open>d\<close>: \<^verbatim>\<open>bool\<close> is a subclass of \<^verbatim>\<open>int\<close>; strings, lists,
  dictionaries and \<^verbatim>\<open>None\<close> raise \<^verbatim>\<open>TypeError\<close>.
\<close>

fun add_int :: "json \<Rightarrow> int \<Rightarrow> py_error + int" where
  "add_int (JInt n) d = Inr (n + d)"
| "add_int (JBool b) d = Inr ((if b then 1 else 0) + d)"
| "add_int (JFloat _) d = Inl Unmodelled"
| "add_int _ d = Inl TypeError"

section \<open>The state mutator\<close>

text \<open>
  \<^verbatim>\<open>self.state.setdefault("flags", {})[flag] = True\<close>: assignment by a string key
  works on a dictionary only.
\<close>

definition set_flag_true :: "pydict \<Rightarrow> string \<Rightarrow> py_error + pydict" where
  "set_flag_true st flag =
     (case setdefault st ''flags'' (JObject []) of
        (st', JObject fl) \<Rightarrow> Inr (dict_set st' ''flags'' (JObject (dict_set fl flag (JBool True))))
      | (st', _) \<Rightarrow> Inl TypeError)"

text \<open>
  \<^verbatim>\<open>if item not in inv: inv.append(item)\<close>. Membership is defined on lists,
  strings (as a block) and dictionaries (as a key); \<^verbatim>\<open>append\<close> on lists only.
\<close>

fun append_if_absent :: "json \<Rightarrow> string \<Rightarrow> py_error + json" where
  "append_if_absent (JArray xs) item =
     Inr (JArray (if JString item \<in> set xs then xs else xs @ [JString item]))"
| "append_if_absent (JString s) item =
     (if str_contains s item then Inr (JString s) else Inl AttributeError)"
| "append_if_absent (JObject d) item =
     (if item \<in> fst ` set d then Inr (JObject d) else Inl AttributeError)"
| "append_if_absent _ item = Inl TypeError"

text \<open>\<^verbatim>\<open>if item in inv: inv.remove(item)\<close>; \<^verbatim>\<open>remove\<close> deletes the first occurrence.\<close>

fun remove_if_present :: "json \<Rightarrow> string \<Rightarrow> py_error + json" where
  "remove_if_present (JArray xs) item = Inr (JArray (remove1 (JString item) xs))"
| "remove_if_present (JString s) item =
     (if str_contains s item then Inl AttributeError else Inr (JString s))"
| "remove_if_present (JObject d) item =
     (if item \<in> fst ` set d then Inl AttributeError else Inr (JObject d))"
| "remove_if_present _ item = Inl TypeError"

text \<open>The payload \<^verbatim>\<open>atom.split(":",1)[1]\<close>.\<close>

definition payload :: "string \<Rightarrow> py_error + string" where
  "payload atom = index1 (split1 CHR '':'' atom)"

text \<open>
  The delta of an \<^verbatim>\<open>hp_delta\<close> atom:
  \<^verbatim>\<open>try: delta = int(...) except ValueError: delta = 0\<close>.
\<close>

definition delta_of :: "string \<Rightarrow> int" where
  "delta_of p = (case py_int p of None \<Rightarrow> 0 | Some n \<Rightarrow> n)"

text \<open>One pass of the loop body of \<^verbatim>\<open>apply_state_changes\<close> for an atom that is a string.\<close>

definition apply_atom :: "pydict \<Rightarrow> string \<Rightarrow> py_error + pydict" where
  "apply_atom st atom =
     (if startswith atom ''move_to:'' then
        (case payload atom of Inl e \<Rightarrow> Inl e
         | Inr p \<Rightarrow> Inr (dict_set st ''location'' (JString (strip p))))
      else if startswith atom ''add_item:'' then
        (case payload atom of Inl e \<Rightarrow> Inl e
         | Inr p \<Rightarrow>
            (case setdefault st ''inventory'' (JArray []) of (st', items) \<Rightarrow>
               (case append_if_absent items (strip p) of Inl e \<Rightarrow> Inl e
                | Inr inv' \<Rightarrow> Inr (dict_set st' ''inventory'' inv'))))
      else if startswith atom ''remove_item:'' then
        (case payload atom of Inl e \<Rightarrow> Inl e
         | Inr p \<Rightarrow>
            (case dict_get st ''inventory'' of None \<Rightarrow> Inr st
             | Some items \<Rightarrow>
                (case remove_if_present items (strip p) of Inl e \<Rightarrow> Inl e
                 | Inr inv' \<Rightarrow> Inr (dict_set st ''inventory'' inv'))))
      else if startswith atom ''set_flag:'' then
        (case payload atom of Inl e \<Rightarrow> Inl e
         | Inr p \<Rightarrow> set_flag_true st (strip p))
      else if startswith atom ''hp_delta:'' then
        (case payload atom of Inl e \<Rightarrow> Inl e
         | Inr p \<Rightarrow>
            (let delta = delta_of p in
             case add_int (dict_get_default st ''hp'' (JInt 0)) delta of Inl e \<Rightarrow> Inl e
             | Inr hp \<Rightarrow>
                (let st' = dict_set st ''hp'' (JInt hp) in
                 if hp \<le> 0 then set_flag_true st' ''hp_zero'' else Inr st')))
      else Inr st)"

text \<open>
  An element of the batch that is not a string has no \<^verbatim>\<open>startswith\<close>:
  \<^verbatim>\<open>AttributeError\<close>.
\<close>

fun apply_item :: "pydict \<Rightarrow> json \<Rightarrow> py_error + pydict" where
  "apply_item st (JString atom) = apply_atom st atom"
| "apply_item st _ = Inl AttributeError"

text \<open>The \<^verbatim>\<open>for\<close> loop: the first exception ends it.\<close>

fun apply_items :: "pydict \<Rightarrow> json list \<Rightarrow> py_error + pydict" where
  "apply_items st [] = Inr st"
| "apply_items st (x # xs) =
     (case apply_item st x of Inl e \<Rightarrow> Inl e | Inr st' \<Rightarrow> apply_items st' xs)"

text \<open>
  What \<^verbatim>\<open>for x in v\<close> runs through: the elements of a list, the characters of a
  string, the keys of a dictionary; anything else is not iterable.
\<close>

fun iterate :: "json \<Rightarrow> py_error + json list" where
  "iterate (JArray xs) = Inr xs"
| "iterate (JString s) = Inr (map (\<lambda>c. JString [c]) s)"
| "iterate (JObject d) = Inr (map (\<lambda>(k, v). JString k) d)"
| "iterate _ = Inl TypeError"

definition bump_turns :: "pydict \<Rightarrow> py_error + pydict" where
  "bump_turns st =
     (case add_int (dict_get_default st ''turns'' (JInt 0)) 1 of Inl e \<Rightarrow> Inl e
      | Inr t \<Rightarrow> Inr (dict_set st ''turns'' (JInt t)))"

definition apply_state_changes :: "pydict \<Rightarrow> json \<Rightarrow> py_error + pydict" where
  "apply_state_changes st changes =
     (case iterate changes of Inl e \<Rightarrow> Inl e
      | Inr items \<Rightarrow>
         (case apply_items st items of Inl e \<Rightarrow> Inl e
          | Inr st' \<Rightarrow> bump_turns st'))"

text \<open>A batch of string atoms, as the mutator's signature announces it.\<close>

definition atoms :: "string list \<Rightarrow> json" where
  "atoms xs = JArray (map JString xs)"

section \<open>The end-condition evaluator\<close>

text \<open>The truth value of an object in a condition.\<close>

fun truthy :: "json \<Rightarrow> py_error + bool" where
  "truthy JNull = Inr False"
| "truthy (JBool b) = Inr b"
| "truthy (JInt n) = Inr (n \<noteq> 0)"
| "truthy (JFloat _) = Inl Unmodelled"
| "truthy (JString s) = Inr (s \<noteq> [])"
| "truthy (JArray xs) = Inr (xs \<noteq> [])"
| "truthy (JObject d) = Inr (d \<noteq> [])"

text \<open>
  \<^verbatim>\<open>flags.get(f)\<close> as a condition: \<open>flags\<close> must have a \<^verbatim>\<open>get\<close>, the key must
  be hashable, and a missing key gives \<^verbatim>\<open>None\<close>, which is false. The keys of a
  dictionary read from JSON are strings, so no other key is ever found.
\<close>

fun flag_truth :: "json \<Rightarrow> json \<Rightarrow> py_error + bool" where
  "flag_truth (JObject fl) (JString f) =
     (case dict_get fl f of None \<Rightarrow> Inr False | Some v \<Rightarrow> truthy v)"
| "flag_truth (JObject fl) (JArray _) = Inl TypeError"
| "flag_truth (JObject fl) (JObject _) = Inl TypeError"
| "flag_truth (JObject fl) _ = Inr False"
| "flag_truth _ _ = Inl AttributeError"

text \<open>\<^verbatim>\<open>all(flags.get(f) for f in fs)\<close> stops at the first false element.\<close>

fun all_flags :: "json \<Rightarrow> json list \<Rightarrow> py_error + bool" where
  "all_flags flags [] = Inr True"
| "all_flags flags (f # fs) =
     (case flag_truth flags f of Inl e \<Rightarrow> Inl e
      | Inr b \<Rightarrow> if b then all_flags flags fs else Inr False)"

text \<open>\<^verbatim>\<open>any(flags.get(f) for f in fs)\<close> stops at the first true element.\<close>

fun any_flags :: "json \<Rightarrow> json list \<Rightarrow> py_error + bool" where
  "any_flags flags [] = Inr False"
| "any_flags flags (f # fs) =
     (case flag_truth flags f of Inl e \<Rightarrow> Inl e
      | Inr b \<Rightarrow> if b then Inr True else any_flags flags fs)"

text \<open>Strings compare by code points, position by position.\<close>

fun str_le :: "string \<Rightarrow> string \<Rightarrow> bool" where
  "str_le [] t = True"
| "str_le (c # cs) [] = False"
| "str_le (c # cs) (d # ds) =
     ((of_char c :: nat) < of_char d \<or> (c = d \<and> str_le cs ds))"

text \<open>
  \<^verbatim>\<open>a >= b\<close>, where \<open>None\<close> for \<open>b\<close> is \<^verbatim>\<open>float("inf")\<close>. Integers and booleans
  compare as integers, and none of them reaches infinity; two strings compare as
  strings; a pair of unlike kinds raises \<^verbatim>\<open>TypeError\<close>, as do \<^verbatim>\<open>None\<close> and
  dictionaries. Comparisons of floating-point numbers and of lists are not modelled.
\<close>

fun as_int :: "json \<Rightarrow> int option" where
  "as_int (JInt n) = Some n"
| "as_int (JBool b) = Some (if b then 1 else 0)"
| "as_int _ = None"

definition is_float :: "json \<Rightarrow> bool" where
  "is_float v = (case v of JFloat _ \<Rightarrow> True | _ \<Rightarrow> False)"

definition py_ge :: "json \<Rightarrow> json option \<Rightarrow> py_error + bool" where
  "py_ge a b =
     (case b of
        None \<Rightarrow>
          (if as_int a \<noteq> None then Inr False
           else if is_float a then Inl Unmodelled
           else Inl TypeError)
      | Some b' \<Rightarrow>
          (case (as_int a, as_int b') of
             (Some x, Some y) \<Rightarrow> Inr (y \<le> x)
           | _ \<Rightarrow>
              (if (is_float a \<and> (is_float b' \<or> as_int b' \<noteq> None))
                  \<or> (is_float b' \<and> as_int a \<noteq> None) then Inl Unmodelled
               else (case (a, b') of
                       (JString s, JString t) \<Rightarrow> Inr (str_le t s)
                     | (JArray _, JArray _) \<Rightarrow> Inl Unmodelled
                     | _ \<Rightarrow> Inl TypeError))))"

text \<open>
  \<^verbatim>\<open>check_end_conditions\<close>, on the rules and the state of the engine. The result
  \<open>None\<close> is Python's \<^verbatim>\<open>None\<close>: the game goes on.
\<close>

definition check_end_conditions :: "pydict \<Rightarrow> pydict \<Rightarrow> py_error + string option" where
  "check_end_conditions rules st =
     (case dict_get_default rules ''END_CONDITIONS'' (JObject []) of
        JObject end \<Rightarrow>
          (let flags = dict_get_default st ''flags'' (JObject []) in
           case iterate (dict_get_default end ''WIN_ALL_FLAGS'' (JArray [])) of
             Inl e \<Rightarrow> Inl e
           | Inr ws \<Rightarrow>
              (case all_flags flags ws of Inl e \<Rightarrow> Inl e
               | Inr True \<Rightarrow> Inr (Some ''You won!'')
               | Inr False \<Rightarrow>
                  (case iterate (dict_get_default end ''LOSE_ANY_FLAGS'' (JArray [])) of
                     Inl e \<Rightarrow> Inl e
                   | Inr ls \<Rightarrow>
                      (case any_flags flags ls of Inl e \<Rightarrow> Inl e
                       | Inr True \<Rightarrow> Inr (Some '' You lost!'')
                       | Inr False \<Rightarrow>
                          (case py_ge (dict_get_default st ''turns'' (JInt 0))
                                      (dict_get end ''MAX_TURNS'') of
                             Inl e \<Rightarrow> Inl e
                           | Inr True \<Rightarrow> Inr (Some '' Max turns exceeded!'')
                           | Inr False \<Rightarrow> Inr None)))))
      | _ \<Rightarrow> Inl AttributeError)"

section \<open>The game state of the data model\<close>

text \<open>
  The recognised keys and their types: \<open>location\<close> a string, \<open>inventory\<close> a list
  of strings without duplicates, \<open>flags\<close> a dictionary of booleans, \<open>hp\<close> an
  integer, \<open>turns\<close> a counter that is not negative. The start state of the rules
  is partial, so each key may be missing; other keys are free.
\<close>

definition is_str :: "json \<Rightarrow> bool" where
  "is_str v = (case v of JString _ \<Rightarrow> True | _ \<Rightarrow> False)"

definition is_bool :: "json \<Rightarrow> bool" where
  "is_bool v = (case v of JBool _ \<Rightarrow> True | _ \<Rightarrow> False)"

definition inventory_ok :: "pydict \<Rightarrow> bool" where
  "inventory_ok st =
     (case dict_get st ''inventory'' of None \<Rightarrow> True
      | Some (JArray xs) \<Rightarrow> list_all is_str xs \<and> distinct xs
      | Some _ \<Rightarrow> False)"

definition flags_ok :: "pydict \<Rightarrow> bool" where
  "flags_ok st =
     (case dict_get st ''flags'' of None \<Rightarrow> True
      | Some (JObject fl) \<Rightarrow> list_all (\<lambda>(k, v). is_bool v) fl
      | Some _ \<Rightarrow> False)"

definition hp_ok :: "pydict \<Rightarrow> bool" where
  "hp_ok st = (case dict_get st ''hp'' of None \<Rightarrow> True | Some (JInt _) \<Rightarrow> True | Some _ \<Rightarrow> False)"

definition turns_ok :: "pydict \<Rightarrow> bool" where
  "turns_ok st =
     (case dict_get st ''turns'' of None \<Rightarrow> True | Some (JInt n) \<Rightarrow> 0 \<le> n | Some _ \<Rightarrow> False)"

definition location_ok :: "pydict \<Rightarrow> bool" where
  "location_ok st = (case dict_get st ''location'' of None \<Rightarrow> True | Some v \<Rightarrow> is_str v)"

definition GameState :: "pydict \<Rightarrow> bool" where
  "GameState st =
     (location_ok st \<and> inventory_ok st \<and> flags_ok st \<and> hp_ok st \<and> turns_ok st)"

text \<open>Reading the state: a missing key reads as the code's default for it.\<close>

definition hp_of :: "pydict \<Rightarrow> int" where
  "hp_of st = (case dict_get st ''hp'' of Some (JInt n) \<Rightarrow> n | _ \<Rightarrow> 0)"

definition turns_of :: "pydict \<Rightarrow> int" where
  "turns_of st = (case dict_get st ''turns'' of Some (JInt n) \<Rightarrow> n | _ \<Rightarrow> 0)"

definition inventory_of :: "pydict \<Rightarrow> json list" where
  "inventory_of st = (case dict_get st ''inventory'' of Some (JArray xs) \<Rightarrow> xs | _ \<Rightarrow> [])"

definition flags_of :: "pydict \<Rightarrow> pydict" where
  "flags_of st = (case dict_get st ''flags'' of Some (JObject fl) \<Rightarrow> fl | _ \<Rightarrow> [])"

definition flag_on :: "pydict \<Rightarrow> string \<Rightarrow> bool" where
  "flag_on st f = (dict_get (flags_of st) f = Some (JBool True))"

section \<open>Reading JSON: \<^verbatim>\<open>json.loads\<close>\<close>

text \<open>
  The decoder of Python's \<^verbatim>\<open>json\<close> module, as the engine calls it (no hooks,
  strict strings). It reads one value between optional white space and wants the
  text to end there; every failure is a \<^verbatim>\<open>JSONDecodeError\<close>. A \<^verbatim>\<open>\uXXXX\<close> escape
  that names a code point from 256 on has no string in this model: the result is
  \<open>Unmodelled\<close>. The limits of the interpreter (depth of recursion, digits of an
  integer literal) are not modelled.
\<close>

definition json_ws :: "char \<Rightarrow> bool" where
  "json_ws c = (c = CHR '' '' \<or> c = CHR 0x09 \<or> c = CHR 0x0A \<or> c = CHR 0x0D)"

definition skip_ws :: "string \<Rightarrow> string" where
  "skip_ws s = dropWhile json_ws s"

definition hex_val :: "char \<Rightarrow> nat option" where
  "hex_val c =
     (let n = (of_char c :: nat) in
      if 48 \<le> n \<and> n \<le> 57 then Some (n - 48)
      else if 97 \<le> n \<and> n \<le> 102 then Some (n - 87)
      else if 65 \<le> n \<and> n \<le> 70 then Some (n - 55)
      else None)"

text \<open>The four hexadecimal digits after \<^verbatim>\<open>\u\<close>: the code point and the rest.\<close>

definition hex4 :: "string \<Rightarrow> (nat \<times> string) option" where
  "hex4 s =
     (case s of
        a # b # c # d # r \<Rightarrow>
          (case (hex_val a, hex_val b, hex_val c, hex_val d) of
             (Some x, Some y, Some z, Some w) \<Rightarrow> Some (((x * 16 + y) * 16 + z) * 16 + w, r)
           | _ \<Rightarrow> None)
      | _ \<Rightarrow> None)"

text \<open>The character a backslash escape other than \<^verbatim>\<open>\u\<close> stands for.\<close>

definition unescape :: "char \<Rightarrow> char option" where
  "unescape e =
     (if e = CHR ''\"'' then Some CHR ''\"''
      else if e = CHR 0x5C then Some CHR 0x5C
      else if e = CHR ''/'' then Some CHR ''/''
      else if e = CHR ''b'' then Some CHR 0x08
      else if e = CHR ''f'' then Some CHR 0x0C
      else if e = CHR ''n'' then Some CHR 0x0A
      else if e = CHR ''r'' then Some CHR 0x0D
      else if e = CHR ''t'' then Some CHR 0x09
      else None)"

definition cons_str :: "char \<Rightarrow> py_error + string \<times> string \<Rightarrow> py_error + string \<times> string" where
  "cons_str c res = (case res of Inl e \<Rightarrow> Inl e | Inr (t, r) \<Rightarrow> Inr (c # t, r))"

text \<open>
  \<^verbatim>\<open>scanstring\<close>, from just after the opening quote: the string and what follows
  the closing quote. Control characters must be escaped.
\<close>

fun scanstring :: "string \<Rightarrow> py_error + string \<times> string" where
  "scanstring [] = Inl JSONDecodeError"
| "scanstring (c # cs) =
     (if c = CHR ''\"'' then Inr ([], cs)
      else if c = CHR 0x5C then
        (case cs of
           [] \<Rightarrow> Inl JSONDecodeError
         | e # r \<Rightarrow>
            (if e = CHR ''u'' then
               (case hex4 r of
                  None \<Rightarrow> Inl JSONDecodeError
                | Some (n, r') \<Rightarrow>
                    if n < 256 then cons_str (char_of n) (scanstring (drop 4 r))
                    else Inl Unmodelled)
             else
               (case unescape e of
                  None \<Rightarrow> Inl JSONDecodeError
                | Some ch \<Rightarrow> cons_str ch (scanstring r))))
      else if (of_char c :: nat) < 32 then Inl JSONDecodeError
      else cons_str c (scanstring cs))"

text \<open>
  The number at the head of the text, as \<^verbatim>\<open>NUMBER_RE\<close> matches it: the integer
  part with its sign, the fraction and the exponent (each of the two empty when
  missing), and the rest of the text. A fraction needs a digit after the point and
  an exponent a digit after its sign; otherwise the match ends before them.
\<close>

definition num_sign :: "string \<Rightarrow> string" where
  "num_sign s = takeWhile (\<lambda>c. c = CHR ''-'') (take 1 s)"

definition num_int :: "string \<Rightarrow> string" where
  "num_int s = (if take 1 s = ''0'' then ''0'' else takeWhile is_digit s)"

definition num_frac :: "string \<Rightarrow> string" where
  "num_frac s =
     (if take 1 s = ''.'' \<and> takeWhile is_digit (drop 1 s) \<noteq> []
      then CHR ''.'' # takeWhile is_digit (drop 1 s) else [])"

definition num_exp :: "string \<Rightarrow> string" where
  "num_exp s =
     (let e = takeWhile (\<lambda>c. c = CHR ''e'' \<or> c = CHR ''E'') (take 1 s);
          es = takeWhile (\<lambda>c. c = CHR ''+'' \<or> c = CHR ''-'') (take 1 (drop 1 s));
          ed = takeWhile is_digit (drop (1 + length es) s)
      in if e = [] \<or> ed = [] then [] else e @ es @ ed)"

definition match_number :: "string \<Rightarrow> (string \<times> string \<times> string \<times> string) option" where
  "match_number s =
     (let sign = num_sign s;
          ds = num_int (drop (length sign) s);
          frac = num_frac (drop (length sign + length ds) s);
          ex = num_exp (drop (length sign + length ds + length frac) s)
      in if ds = [] then None
         else Some (sign @ ds, frac, ex,
                    drop (length sign + length ds + length frac + length ex) s))"

text \<open>\<^verbatim>\<open>int(lexeme)\<close> for the integer part of a number.\<close>

definition int_of_lexeme :: "string \<Rightarrow> int" where
  "int_of_lexeme l =
     (if take 1 l = ''-'' then - digits_val (drop 1 l) else digits_val l)"

text \<open>
  The branches of \<^verbatim>\<open>scan_once\<close> that read no string, object or array: the three
  literals, then a number (a float when it has a fraction or an exponent), then the
  three constants.
\<close>

definition scan_scalar :: "string \<Rightarrow> py_error + json \<times> string" where
  "scan_scalar s =
     (if startswith s ''null'' then Inr (JNull, drop 4 s)
      else if startswith s ''true'' then Inr (JBool True, drop 4 s)
      else if startswith s ''false'' then Inr (JBool False, drop 5 s)
      else
        (case match_number s of
           Some (ip, frac, ex, r) \<Rightarrow>
             if frac \<noteq> [] \<or> ex \<noteq> [] then Inr (JFloat (ip @ frac @ ex), r)
             else Inr (JInt (int_of_lexeme ip), r)
         | None \<Rightarrow>
             if startswith s ''NaN'' then Inr (JFloat ''NaN'', drop 3 s)
             else if startswith s ''Infinity'' then Inr (JFloat ''Infinity'', drop 8 s)
             else if startswith s ''-Infinity'' then Inr (JFloat ''-Infinity'', drop 9 s)
             else Inl JSONDecodeError))"

text \<open>
  \<^verbatim>\<open>scan_once\<close>, \<^verbatim>\<open>JSONArray\<close> and \<^verbatim>\<open>JSONObject\<close> call one another. The first
  argument bounds the number of calls. \<open>parse_elems\<close> stands at the start of an
  element, with the elements read so far; \<open>parse_members\<close> stands just after the
  opening quote of a key, with the pairs read so far (a key read again takes the new
  value and keeps its place, as \<^verbatim>\<open>dict(pairs)\<close> does).
\<close>

fun parse_value :: "nat \<Rightarrow> string \<Rightarrow> py_error + json \<times> string"
  and parse_elems :: "nat \<Rightarrow> json list \<Rightarrow> string \<Rightarrow> py_error + json \<times> string"
  and parse_members :: "nat \<Rightarrow> pydict \<Rightarrow> string \<Rightarrow> py_error + json \<times> string"
where
  "parse_value 0 s = Inl OutOfFuel"
| "parse_value (Suc n) s =
     (case s of
        [] \<Rightarrow> Inl JSONDecodeError
      | c # cs \<Rightarrow>
         if c = CHR ''\"'' then
           (case scanstring cs of Inl e \<Rightarrow> Inl e | Inr (t, r) \<Rightarrow> Inr (JString t, r))
         else if c = CHR ''{'' then
           (case skip_ws cs of
              [] \<Rightarrow> Inl JSONDecodeError
            | d # r \<Rightarrow>
               if d = CHR ''}'' then Inr (JObject [], r)
               else if d = CHR ''\"'' then parse_members n [] r
               else Inl JSONDecodeError)
         else if c = CHR ''['' then
           (case skip_ws cs of
              [] \<Rightarrow> Inl JSONDecodeError
            | d # r \<Rightarrow>
               if d = CHR '']'' then Inr (JArray [], r)
               else parse_elems n [] (d # r))
         else scan_scalar s)"
| "parse_elems 0 acc s = Inl OutOfFuel"
| "parse_elems (Suc n) acc s =
     (case parse_value n s of
        Inl e \<Rightarrow> Inl e
      | Inr (v, r) \<Rightarrow>
         (case skip_ws r of
            [] \<Rightarrow> Inl JSONDecodeError
          | d # r' \<Rightarrow>
             if d = CHR '']'' then Inr (JArray (acc @ [v]), r')
             else if d = CHR '','' then parse_elems n (acc @ [v]) (skip_ws r')
             else Inl JSONDecodeError))"
| "parse_members 0 acc s = Inl OutOfFuel"
| "parse_members (Suc n) acc s =
     (case scanstring s of
        Inl e \<Rightarrow> Inl e
      | Inr (k, r) \<Rightarrow>
         (case skip_ws r of
            [] \<Rightarrow> Inl JSONDecodeError
          | d # r1 \<Rightarrow>
             if d \<noteq> CHR '':'' then Inl JSONDecodeError
             else
               (case parse_value n (skip_ws r1) of
                  Inl e \<Rightarrow> Inl e
                | Inr (v, r2) \<Rightarrow>
                   (case skip_ws r2 of
                      [] \<Rightarrow> Inl JSONDecodeError
                    | d' # r3 \<Rightarrow>
                       if d' = CHR ''}'' then Inr (JObject (dict_set acc k v), r3)
                       else if d' = CHR '','' then
                         (case skip_ws r3 of
                            [] \<Rightarrow> Inl JSONDecodeError
                          | q # r4 \<Rightarrow>
                             if q = CHR ''\"'' then parse_members n (dict_set acc k v) r4
                             else Inl JSONDecodeError)
                       else Inl JSONDecodeError))))"

text \<open>
  \<^verbatim>\<open>json.loads(text)\<close>: one value, white space around it, nothing else. The bound
  on the calls is large enough for every text (see \<open>json_loads_fuel\<close>).
\<close>

definition json_loads :: "string \<Rightarrow> py_error + json" where
  "json_loads text =
     (case parse_value (2 * length text + 2) (skip_ws text) of
        Inl e \<Rightarrow> Inl e
      | Inr (v, r) \<Rightarrow> if skip_ws r = [] then Inr v else Inl JSONDecodeError)"

section \<open>The response parser\<close>

text \<open>\<^verbatim>\<open>text.find(c)\<close> and \<^verbatim>\<open>text.rfind(c)\<close> for one character: -1 when absent.\<close>

definition find_char :: "string \<Rightarrow> char \<Rightarrow> int" where
  "find_char text c = (if c \<in> set text then int (length (takeWhile (\<lambda>x. x \<noteq> c) text)) else - 1)"

definition rfind_char :: "string \<Rightarrow> char \<Rightarrow> int" where
  "rfind_char text c =
     (if c \<in> set text then int (length text) - 1 - int (length (takeWhile (\<lambda>x. x \<noteq> c) (rev text)))
      else - 1)"

text \<open>\<^verbatim>\<open>text[i:j]\<close> for indices that are not negative.\<close>

definition slice :: "string \<Rightarrow> int \<Rightarrow> int \<Rightarrow> string" where
  "slice text i j = drop (nat i) (take (nat j) text)"

definition fallback :: json where
  "fallback = JObject [(''narration'', JString ''Invalid GM response.''), (''state_change'', JArray [])]"

text \<open>
  \<^verbatim>\<open>safe_json_extract\<close>. Both \<^verbatim>\<open>try\<close> blocks catch \<^verbatim>\<open>JSONDecodeError\<close> and nothing
  else. The test \<^verbatim>\<open>end != -1\<close> is on \<^verbatim>\<open>rfind + 1\<close>.
\<close>

definition safe_json_extract :: "string \<Rightarrow> py_error + json" where
  "safe_json_extract text =
     (case json_loads text of
        Inr v \<Rightarrow> Inr v
      | Inl JSONDecodeError \<Rightarrow>
          (let start = find_char text CHR ''{'';
               end = rfind_char text CHR ''}'' + 1
           in if start \<noteq> - 1 \<and> end \<noteq> - 1 then
                (case json_loads (slice text start end) of
                   Inr v \<Rightarrow> Inr v
                 | Inl JSONDecodeError \<Rightarrow> Inr fallback
                 | Inl e \<Rightarrow> Inl e)
              else Inr fallback)
      | Inl e \<Rightarrow> Inl e)"

section \<open>Writing JSON: \<^verbatim>\<open>json.dumps\<close>\<close>

text \<open>
  The encoder of Python's \<^verbatim>\<open>json\<close> module, with the options the engine uses:
  \<^verbatim>\<open>indent\<close>, the two separators and \<^verbatim>\<open>ensure_ascii\<close>. A floating-point number is
  written as the literal it is carried as (Python writes the shortest literal that
  reads back as the same number, which may be another literal of that number).
\<close>

record dump_opts =
  indent :: "nat option"
  item_separator :: string
  key_separator :: string
  ensure_ascii :: bool

definition digit_char :: "nat \<Rightarrow> char" where
  "digit_char n = char_of (48 + n)"

text \<open>The decimal digits of an integer that is not negative.\<close>

function digits_of :: "int \<Rightarrow> string" where
  "digits_of n =
     (if n < 10 then [digit_char (nat n)]
      else digits_of (n div 10) @ [digit_char (nat (n mod 10))])"
  by pat_completeness auto
termination
  by (relation "measure nat") auto

declare digits_of.simps [simp del]

text \<open>\<^verbatim>\<open>int.__repr__\<close>\<close>

definition show_int :: "int \<Rightarrow> string" where
  "show_int i = (if i < 0 then CHR ''-'' # digits_of (- i) else digits_of i)"

definition hex_digit :: "nat \<Rightarrow> char" where
  "hex_digit n = (if n < 10 then char_of (48 + n) else char_of (87 + n))"

text \<open>
  One character inside a string. The quote, the backslash and the control characters
  are always escaped; with \<^verbatim>\<open>ensure_ascii\<close> so is every character outside the
  printable ASCII range. The code points are below 256, so an escape by number is
  \<^verbatim>\<open>\u00\<close> and two digits.
\<close>

definition escape_char :: "bool \<Rightarrow> char \<Rightarrow> string" where
  "escape_char ascii c =
     (if c = CHR ''\"'' then [CHR 0x5C, CHR ''\"'']
      else if c = CHR 0x5C then [CHR 0x5C, CHR 0x5C]
      else if c = CHR 0x0A then [CHR 0x5C, CHR ''n'']
      else if c = CHR 0x0D then [CHR 0x5C, CHR ''r'']
      else if c = CHR 0x09 then [CHR 0x5C, CHR ''t'']
      else if c = CHR 0x08 then [CHR 0x5C, CHR ''b'']
      else if c = CHR 0x0C then [CHR 0x5C, CHR ''f'']
      else if (of_char c :: nat) < 32 \<or> (ascii \<and> 126 < (of_char c :: nat)) then
        [CHR 0x5C, CHR ''u'', CHR ''0'', CHR ''0'',
         hex_digit (of_char c div 16), hex_digit (of_char c mod 16)]
      else [c])"

definition encode_str :: "bool \<Rightarrow> string \<Rightarrow> string" where
  "encode_str ascii s = CHR ''\"'' # concat (map (escape_char ascii) s) @ ''\"''"

text \<open>The line break and the indentation of nesting level \<open>l\<close>; nothing without \<^verbatim>\<open>indent\<close>.\<close>

definition newline_indent :: "dump_opts \<Rightarrow> nat \<Rightarrow> string" where
  "newline_indent opts l =
     (case indent opts of None \<Rightarrow> [] | Some n \<Rightarrow> CHR 0x0A # replicate (n * l) CHR '' '')"

fun join :: "string \<Rightarrow> string list \<Rightarrow> string" where
  "join sep [] = []"
| "join sep [x] = x"
| "join sep (x # y # ys) = x @ sep @ join sep (y # ys)"

fun dumps_value :: "dump_opts \<Rightarrow> nat \<Rightarrow> json \<Rightarrow> string" where
  "dumps_value opts l JNull = ''null''"
| "dumps_value opts l (JBool b) = (if b then ''true'' else ''false'')"
| "dumps_value opts l (JInt i) = show_int i"
| "dumps_value opts l (JFloat x) = x"
| "dumps_value opts l (JString s) = encode_str (ensure_ascii opts) s"
| "dumps_value opts l (JArray xs) =
     (if xs = [] then ''[]''
      else ''['' @ newline_indent opts (Suc l)
           @ join (item_separator opts @ newline_indent opts (Suc l))
                  (map (dumps_value opts (Suc l)) xs)
           @ newline_indent opts l @ '']'')"
| "dumps_value opts l (JObject d) =
     (if d = [] then ''{}''
      else ''{'' @ newline_indent opts (Suc l)
           @ join (item_separator opts @ newline_indent opts (Suc l))
                  (map (\<lambda>kv. encode_str (ensure_ascii opts) (fst kv) @ key_separator opts
                               @ dumps_value opts (Suc l) (snd kv)) d)
           @ newline_indent opts l @ ''}'')"

definition json_dumps :: "dump_opts \<Rightarrow> json \<Rightarrow> string" where
  "json_dumps opts v = dumps_value opts 0 v"

text \<open>The four ways the engine calls the encoder.\<close>

definition compact_opts :: dump_opts where
  "compact_opts = \<lparr>indent = None, item_separator = '','', key_separator = '':'', ensure_ascii = True\<rparr>"

definition history_opts :: dump_opts where
  "history_opts = \<lparr>indent = Some 2, item_separator = '','', key_separator = '': '', ensure_ascii = True\<rparr>"

definition save_opts :: dump_opts where
  "save_opts = \<lparr>indent = Some 2, item_separator = '','', key_separator = '': '', ensure_ascii = False\<rparr>"

definition transcript_opts :: dump_opts where
  "transcript_opts = \<lparr>indent = None, item_separator = '', '', key_separator = '': '', ensure_ascii = False\<rparr>"

section \<open>The session engine\<close>

text \<open>
  \<^verbatim>\<open>str.lower\<close> on code points below 256: the ASCII capitals and the accented
  capitals from 192 to 222, the multiplication sign at 215 apart.
\<close>

definition lower_char :: "char \<Rightarrow> char" where
  "lower_char c =
     (let n = (of_char c :: nat) in
      if (65 \<le> n \<and> n \<le> 90) \<or> (192 \<le> n \<and> n \<le> 222 \<and> n \<noteq> 215) then char_of (n + 32) else c)"

definition lower :: "string \<Rightarrow> string" where
  "lower s = map lower_char s"

text \<open>
  The engine object. \<^verbatim>\<open>__init__\<close> makes the state a shallow copy of the start
  state of the rules, so a list or dictionary of the start state is the same object
  in the rules and in the state. The mutator changes the inventory list and the flags
  dictionary in place and never replaces them; \<open>shared\<close> names those of the two that
  are still the objects of the rules, and \<open>sync_rules\<close> gives the rules their
  content after the state has changed.
\<close>

record engine =
  rules :: pydict
  state :: pydict
  history :: "json list"
  shared :: "string list"

definition is_array :: "json \<Rightarrow> bool" where
  "is_array v = (case v of JArray _ \<Rightarrow> True | _ \<Rightarrow> False)"

definition is_object :: "json \<Rightarrow> bool" where
  "is_object v = (case v of JObject _ \<Rightarrow> True | _ \<Rightarrow> False)"

text \<open>
  \<^verbatim>\<open>GameEngine(rules)\<close>. \<^verbatim>\<open>dict(x)\<close> for a start state \<open>x\<close> that is not a
  dictionary is not modelled.
\<close>

definition engine_init :: "pydict \<Rightarrow> py_error + engine" where
  "engine_init rs =
     (case dict_get_default rs ''START'' (JObject []) of
        JObject start \<Rightarrow>
          Inr \<lparr>rules = rs, state = start, history = [],
               shared = (if dict_get rs ''START'' = None then []
                         else filter (\<lambda>k. case dict_get start k of
                                               Some v \<Rightarrow> if k = ''inventory'' then is_array v
                                                         else is_object v
                                             | None \<Rightarrow> False)
                                [''inventory'', ''flags''])\<rparr>
      | _ \<Rightarrow> Inl Unmodelled)"

definition sync_rules :: "string list \<Rightarrow> pydict \<Rightarrow> pydict \<Rightarrow> pydict" where
  "sync_rules ks rs st =
     (case dict_get rs ''START'' of
        Some (JObject start) \<Rightarrow>
          dict_set rs ''START''
            (JObject (fold (\<lambda>k s. case dict_get st k of Some v \<Rightarrow> dict_set s k v | None \<Rightarrow> s)
                           ks start))
      | _ \<Rightarrow> rs)"

text \<open>
  What is outside the engine: the prompt file, the save file (\<open>None\<close>: there is
  none), the transcript file, what the terminal has shown, and the prompts that
  went to the model. The terminal is recorded as events; the text of a narration is
  made by \<^verbatim>\<open>str\<close> and \<^verbatim>\<open>strip\<close>, which never fail, and the event keeps the value
  it is made from.
\<close>

datatype event =
    Commands string
  | Inventory string
  | SavedGame
  | LoadedSave
  | NoSaveFile
  | Goodbye
  | Narration json
  | EndReason string
  | OllamaError

record world =
  gm_prompt :: "string option"
  save_file :: "string option"
  transcript :: string
  shown :: "event list"
  sent :: "string list"

text \<open>How a call of the engine ends: it returns, the process exits, or an exception leaves it.\<close>

datatype outcome = Returned engine | Exited | Raised py_error

text \<open>
  The model behind \<^verbatim>\<open>ollama run\<close>: for a prompt, the standard output and the
  standard error of the process, or \<open>None\<close> when running it fails or takes too long.
\<close>

type_synonym backend = "string \<Rightarrow> (string \<times> string) option"

text \<open>\<^verbatim>\<open>call_ollama\<close>; \<open>None\<close> is \<^verbatim>\<open>sys.exit\<close> with the error message.\<close>

definition call_ollama :: "backend \<Rightarrow> string \<Rightarrow> string option" where
  "call_ollama run prompt =
     (case run prompt of
        None \<Rightarrow> None
      | Some (out, err) \<Rightarrow> Some (if strip out \<noteq> [] then strip out else strip err))"

definition MAX_HISTORY :: nat where
  "MAX_HISTORY = 6"

definition nl :: string where
  "nl = [CHR 0x0A]"

definition INSTRUCTIONS :: string where
  "INSTRUCTIONS = ''INSTRUCTIONS: Reply strictly as JSON with keys '' @ [CHR 0x27] @ ''narration''
     @ [CHR 0x27] @ '' and '' @ [CHR 0x27] @ ''state_change'' @ [CHR 0x27] @ '' ''"

text \<open>\<^verbatim>\<open>build_prompt\<close>; reading the prompt file fails when it is not there.\<close>

definition build_prompt :: "engine \<Rightarrow> world \<Rightarrow> string \<Rightarrow> py_error + string" where
  "build_prompt e w player_cmd =
     (case gm_prompt w of
        None \<Rightarrow> Inl FileNotFoundError
      | Some gm_text \<Rightarrow>
          Inr (gm_text @ nl @ nl
               @ ''RULES_JSON:'' @ json_dumps compact_opts (JObject (rules e)) @ nl
               @ ''CURRENT_STATE:'' @ json_dumps compact_opts (JObject (state e)) @ nl
               @ ''RECENT_HISTORY:''
               @ json_dumps history_opts
                   (JArray (drop (length (history e) - MAX_HISTORY) (history e))) @ nl
               @ ''PLAYER_COMMAND:'' @ player_cmd @ nl @ nl
               @ INSTRUCTIONS))"

text \<open>
  \<^verbatim>\<open>", ".join(v)\<close>: \<open>v\<close> must be iterable and give strings only.
\<close>

definition the_str :: "json \<Rightarrow> string" where
  "the_str v = (case v of JString s \<Rightarrow> s | _ \<Rightarrow> [])"

definition join_strs :: "json \<Rightarrow> py_error + string" where
  "join_strs v =
     (case iterate v of
        Inl e \<Rightarrow> Inl TypeError
      | Inr items \<Rightarrow>
          if list_all is_str items then Inr (join '', '' (map the_str items))
          else Inl TypeError)"

text \<open>\<^verbatim>\<open>save_json(self.state, SAVE_PATH)\<close> and \<^verbatim>\<open>load_json(SAVE_PATH)\<close>.\<close>

definition save_json :: "json \<Rightarrow> world \<Rightarrow> world" where
  "save_json obj w = w\<lparr>save_file := Some (json_dumps save_opts obj)\<rparr>"

definition load_json :: "world \<Rightarrow> py_error + json" where
  "load_json w =
     (case save_file w of None \<Rightarrow> Inl FileNotFoundError | Some content \<Rightarrow> json_loads content)"

definition show_out :: "event \<Rightarrow> world \<Rightarrow> world" where
  "show_out x w = w\<lparr>shown := shown w @ [x]\<rparr>"

text \<open>
  The part of \<^verbatim>\<open>handle_command\<close> after the built-in commands: one turn with the
  game master. The state of the engine is a dictionary (\<^verbatim>\<open>load_json\<close> is declared
  to return one); a save file that holds another kind of value is not modelled.
\<close>

definition gm_turn :: "backend \<Rightarrow> string \<Rightarrow> engine \<Rightarrow> world \<Rightarrow> world \<times> outcome" where
  "gm_turn run cmd e w =
     (case build_prompt e w cmd of
        Inl err \<Rightarrow> (w, Raised err)
      | Inr prompt \<Rightarrow>
         (let w1 = w\<lparr>sent := sent w @ [prompt]\<rparr> in
          case call_ollama run prompt of
            None \<Rightarrow> (show_out OllamaError w1, Exited)
          | Some raw \<Rightarrow>
             (case safe_json_extract raw of
                Inl err \<Rightarrow> (w1, Raised err)
              | Inr (JObject parsed) \<Rightarrow>
                 (let narration = dict_get_default parsed ''narration'' (JString []);
                      state_change = dict_get_default parsed ''state_change'' (JArray [])
                  in case apply_state_changes (state e) state_change of
                       Inl err \<Rightarrow> (w1, Raised err)
                     | Inr st' \<Rightarrow>
                        (let rs' = sync_rules (shared e) (rules e) st';
                             w2 = show_out (Narration narration) w1;
                             gm = JObject [(''narration'', narration), (''state_change'', state_change)];
                             e' = e\<lparr>rules := rs', state := st',
                                    history := history e @ [JObject [(''player'', JString cmd), (''gm'', gm)]]\<rparr>;
                             w3 = w2\<lparr>transcript := transcript w2
                                    @ json_dumps transcript_opts
                                        (JObject [(''player'', JString cmd), (''gm'', gm),
                                                  (''state'', JObject st')])
                                    @ nl\<rparr>
                         in case check_end_conditions rs' st' of
                              Inl err \<Rightarrow> (w3, Raised err)
                            | Inr (Some reason) \<Rightarrow> (show_out (EndReason reason) w3, Exited)
                            | Inr None \<Rightarrow> (w3, Returned e')))
              | Inr _ \<Rightarrow> (w1, Raised AttributeError))))"

text \<open>\<^verbatim>\<open>handle_command\<close>\<close>

definition handle_command :: "backend \<Rightarrow> string \<Rightarrow> engine \<Rightarrow> world \<Rightarrow> world \<times> outcome" where
  "handle_command run cmd0 e w =
     (let cmd = lower cmd0 in
      if cmd = ''help'' then
        (case join_strs (dict_get_default (rules e) ''COMMANDS'' (JArray [])) of
           Inl err \<Rightarrow> (w, Raised err)
         | Inr s \<Rightarrow> (show_out (Commands s) w, Returned e))
      else if cmd = ''inventory'' then
        (case join_strs (dict_get_default (state e) ''inventory'' (JArray [])) of
           Inl err \<Rightarrow> (w, Raised err)
         | Inr s \<Rightarrow> (show_out (Inventory (if s \<noteq> [] then s else ''empty'')) w, Returned e))
      else if cmd = ''save'' then
        (show_out SavedGame (save_json (JObject (state e)) w), Returned e)
      else if cmd = ''load'' then
        (if save_file w \<noteq> None then
           (case load_json w of
              Inl err \<Rightarrow> (w, Raised err)
            | Inr (JObject st) \<Rightarrow> (show_out LoadedSave w, Returned (e\<lparr>state := st, shared := []\<rparr>))
            | Inr _ \<Rightarrow> (w, Raised Unmodelled))
         else (show_out NoSaveFile w, Returned e))
      else if cmd = ''quit'' then (show_out Goodbye w, Exited)
      else gm_turn run cmd e w)"

text \<open>
  One round of the loop of \<^verbatim>\<open>main\<close> on a line of input: the line is stripped, and an
  empty command is skipped.
\<close>

definition main_step :: "backend \<Rightarrow> string \<Rightarrow> engine \<Rightarrow> world \<Rightarrow> world \<times> outcome" where
  "main_step run line e w =
     (let cmd = strip line in
      if cmd = [] then (w, Returned e) else handle_command run cmd e w)"

section \<open>Notions the properties are stated with\<close>

text \<open>The atom kinds the mutator knows, by their prefixes.\<close>

definition recognised :: "string \<Rightarrow> bool" where
  "recognised atom =
     (startswith atom ''move_to:'' \<or> startswith atom ''add_item:'' \<or>
      startswith atom ''remove_item:'' \<or> startswith atom ''set_flag:'' \<or>
      startswith atom ''hp_delta:'')"

text \<open>
  What one atom may do to a state of the data model: it stays one, the turn
  counter is not touched, and no flag that is on goes off.
\<close>

definition step_ok :: "pydict \<Rightarrow> pydict \<Rightarrow> bool" where
  "step_ok st st' =
     (GameState st' \<and> dict_get st' ''turns'' = dict_get st ''turns'' \<and>
      (\<forall>g. flag_on st g \<longrightarrow> flag_on st' g))"

text \<open>The state after \<^verbatim>\<open>add_item\<close> with payload \<open>p\<close>, in a state of the data model.\<close>

definition added :: "string \<Rightarrow> pydict \<Rightarrow> pydict" where
  "added p st = dict_set st ''inventory''
     (JArray (if JString (strip p) \<in> set (inventory_of st) then inventory_of st
              else inventory_of st @ [JString (strip p)]))"

text \<open>
  The evaluation order as the specification words it: WIN, then LOSE, then TURNS,
  the first match wins; no maximum means no turn limit.
\<close>

definition end_condition_spec ::
  "string list \<Rightarrow> string list \<Rightarrow> int option \<Rightarrow> (string \<Rightarrow> bool) \<Rightarrow> int \<Rightarrow> string option" where
  "end_condition_spec win lose max_turns on turns =
     (if list_all on win then Some ''You won!''
      else if list_ex on lose then Some '' You lost!''
      else if (case max_turns of None \<Rightarrow> False | Some m \<Rightarrow> m \<le> turns)
        then Some '' Max turns exceeded!''
      else None)"

text \<open>
  The shape the specification promises for the result of the response parser: an
  object with exactly the keys \<^verbatim>\<open>narration\<close> (a string or a list of strings) and
  \<^verbatim>\<open>state_change\<close> (a list of strings).
\<close>

definition gm_shape :: "json \<Rightarrow> bool" where
  "gm_shape v =
     (case v of
        JObject d \<Rightarrow>
          distinct (map fst d) \<and> set (map fst d) = {''narration'', ''state_change''} \<and>
          (case dict_get d ''narration'' of
             Some (JString _) \<Rightarrow> True
           | Some (JArray xs) \<Rightarrow> list_all is_str xs
           | _ \<Rightarrow> False) \<and>
          (case dict_get d ''state_change'' of
             Some (JArray xs) \<Rightarrow> list_all is_str xs
           | _ \<Rightarrow> False)
      | _ \<Rightarrow> False)"

text \<open>
  The ways the decoder may fail on a text: a decode error; \<open>Unmodelled\<close>, only when
  the text has a backslash; or the bound on the calls, only when it was too small.
\<close>

definition err_ok :: "py_error \<Rightarrow> string \<Rightarrow> bool \<Rightarrow> bool" where
  "err_ok e s short =
     (e = JSONDecodeError \<or> (e = Unmodelled \<and> CHR 0x5C \<in> set s) \<or> (e = OutOfFuel \<and> short))"

text \<open>
  The parts of a number literal: an optional minus sign, digits without a leading
  zero (or the single digit zero), an optional fraction, an optional exponent; and
  what may follow a value in an encoded text.
\<close>

definition sign_part :: "string \<Rightarrow> bool" where
  "sign_part sg = (sg = [] \<or> sg = ''-'')"

definition int_digits :: "string \<Rightarrow> bool" where
  "int_digits ds = (ds = ''0'' \<or> (ds \<noteq> [] \<and> list_all is_digit ds \<and> hd ds \<noteq> CHR ''0''))"

definition frac_part :: "string \<Rightarrow> bool" where
  "frac_part fr = (fr = [] \<or> (hd fr = CHR ''.'' \<and> tl fr \<noteq> [] \<and> list_all is_digit (tl fr)))"

definition exp_digits :: "string \<Rightarrow> string" where
  "exp_digits r = (if r \<noteq> [] \<and> (hd r = CHR ''+'' \<or> hd r = CHR ''-'') then tl r else r)"

definition exp_part :: "string \<Rightarrow> bool" where
  "exp_part ex =
     (ex = [] \<or>
      ((hd ex = CHR ''e'' \<or> hd ex = CHR ''E'') \<and>
       exp_digits (tl ex) \<noteq> [] \<and> list_all is_digit (exp_digits (tl ex))))"

definition delim :: "string \<Rightarrow> bool" where
  "delim rest =
     (case rest of [] \<Rightarrow> True
      | c # _ \<Rightarrow> c = CHR '','' \<or> c = CHR '']'' \<or> c = CHR ''}'' \<or> c = CHR 0x0A)"

text \<open>
  The literals that the decoder reads as a floating-point number, and the values the
  encoder and the decoder agree on: every float is such a literal and no dictionary
  has a key twice. Every value the decoder returns is of this kind.
\<close>

definition float_lexeme :: "string \<Rightarrow> bool" where
  "float_lexeme l =
     (l = ''NaN'' \<or> l = ''Infinity'' \<or> l = ''-Infinity'' \<or>
      (case match_number l of
         Some (ip, fr, ex, r) \<Rightarrow> r = [] \<and> (fr \<noteq> [] \<or> ex \<noteq> [])
       | None \<Rightarrow> False))"

fun json_ok :: "json \<Rightarrow> bool" where
  "json_ok (JFloat l) = float_lexeme l"
| "json_ok (JArray xs) = (\<forall>x \<in> set xs. json_ok x)"
| "json_ok (JObject d) = (distinct (map fst d) \<and> (\<forall>kv \<in> set d. json_ok (snd kv)))"
| "json_ok _ = True"





text \<open>
  The built-in commands, the part of the prompt that stands before the line of the
  player's command, and a model process that always fails.
\<close>

definition builtin :: "string \<Rightarrow> bool" where
  "builtin cmd =
     (cmd = ''help'' \<or> cmd = ''inventory'' \<or> cmd = ''save'' \<or> cmd = ''load'' \<or> cmd = ''quit'')"

definition prompt_head :: "engine \<Rightarrow> string \<Rightarrow> string" where
  "prompt_head e gm_text =
     gm_text @ nl @ nl
     @ ''RULES_JSON:'' @ json_dumps compact_opts (JObject (rules e)) @ nl
     @ ''CURRENT_STATE:'' @ json_dumps compact_opts (JObject (state e)) @ nl
     @ ''RECENT_HISTORY:''
     @ json_dumps history_opts (JArray (drop (length (history e) - MAX_HISTORY) (history e))) @ nl"

definition no_reply :: backend where
  "no_reply prompt = None"

section \<open>Properties of the state mutator and of the end-condition evaluator\<close>

lemma dict_get_set: "dict_get (dict_set d k v) k' = (if k' = k then Some v else dict_get d k')"
  by (simp add: dict_get_def dict_set_def update_conv')

lemma dict_set_same: "dict_get d k = Some v \<Longrightarrow> dict_set d k v = d"
  by (simp add: dict_get_def dict_set_def update_triv)

lemma dict_set_twice: "dict_set (dict_set d k v) k w = dict_set d k w"
  by (simp add: dict_set_def)

lemma list_all_update:
  "list_all P al \<Longrightarrow> P (k, v) \<Longrightarrow> list_all P (AList.update k v al)"
  by (induction al) auto

lemma startswith_append: "startswith s p \<Longrightarrow> s = p @ drop (length p) s"
  unfolding startswith_def by (metis append_take_drop_id)

lemma payload_move_to: "payload (''move_to:'' @ r) = Inr r"
  by (simp add: payload_def split1_def index1_def)
lemma payload_add_item: "payload (''add_item:'' @ r) = Inr r"
  by (simp add: payload_def split1_def index1_def)
lemma payload_remove_item: "payload (''remove_item:'' @ r) = Inr r"
  by (simp add: payload_def split1_def index1_def)
lemma payload_set_flag: "payload (''set_flag:'' @ r) = Inr r"
  by (simp add: payload_def split1_def index1_def)
lemma payload_hp_delta: "payload (''hp_delta:'' @ r) = Inr r"
  by (simp add: payload_def split1_def index1_def)

lemma apply_atom_move_to:
  "apply_atom st (''move_to:'' @ r) = Inr (dict_set st ''location'' (JString (strip r)))"
  using payload_move_to [of r] by (simp add: apply_atom_def startswith_def)

lemma apply_atom_add_item:
  "apply_atom st (''add_item:'' @ r) =
     (case setdefault st ''inventory'' (JArray []) of (st', items) \<Rightarrow>
        (case append_if_absent items (strip r) of Inl e \<Rightarrow> Inl e
         | Inr inv' \<Rightarrow> Inr (dict_set st' ''inventory'' inv')))"
  using payload_add_item [of r] by (simp add: apply_atom_def startswith_def)

lemma apply_atom_remove_item:
  "apply_atom st (''remove_item:'' @ r) =
     (case dict_get st ''inventory'' of None \<Rightarrow> Inr st
      | Some items \<Rightarrow>
         (case remove_if_present items (strip r) of Inl e \<Rightarrow> Inl e
          | Inr inv' \<Rightarrow> Inr (dict_set st ''inventory'' inv')))"
  using payload_remove_item [of r] by (simp add: apply_atom_def startswith_def)

lemma apply_atom_set_flag:
  "apply_atom st (''set_flag:'' @ r) = set_flag_true st (strip r)"
  using payload_set_flag [of r] by (simp add: apply_atom_def startswith_def)

lemma apply_atom_hp_delta:
  "apply_atom st (''hp_delta:'' @ r) =
     (let delta = delta_of r in
      case add_int (dict_get_default st ''hp'' (JInt 0)) delta of Inl e \<Rightarrow> Inl e
      | Inr hp \<Rightarrow>
         (let st' = dict_set st ''hp'' (JInt hp) in
          if hp \<le> 0 then set_flag_true st' ''hp_zero'' else Inr st'))"
  using payload_hp_delta [of r] by (simp add: apply_atom_def startswith_def)

lemma apply_atom_unrecognised: "\<not> recognised atom \<Longrightarrow> apply_atom st atom = Inr st"
  by (simp add: recognised_def apply_atom_def)

lemma recognised_cases:
  assumes "recognised atom"
  obtains r where "atom = ''move_to:'' @ r"
  | r where "atom = ''add_item:'' @ r"
  | r where "atom = ''remove_item:'' @ r"
  | r where "atom = ''set_flag:'' @ r"
  | r where "atom = ''hp_delta:'' @ r"
  using assms unfolding recognised_def by (blast dest: startswith_append)


lemmas ok_defs = GameState_def location_ok_def inventory_ok_def flags_ok_def hp_ok_def turns_ok_def

lemma set_flag_true_eq:
  assumes "flags_ok st"
  shows "set_flag_true st f =
           Inr (dict_set st ''flags'' (JObject (dict_set (flags_of st) f (JBool True))))"
proof (cases "dict_get st ''flags''")
  case None
  then show ?thesis
    by (simp add: set_flag_true_def setdefault_def flags_of_def dict_set_twice)
next
  case (Some v)
  with assms obtain fl where "v = JObject fl"
    by (cases v) (simp_all add: flags_ok_def)
  with Some show ?thesis
    by (simp add: set_flag_true_def setdefault_def flags_of_def)
qed

lemma flags_of_set_flags [simp]: "flags_of (dict_set st ''flags'' (JObject fl)) = fl"
  by (simp add: flags_of_def dict_get_set)

lemma flags_of_set_other: "k \<noteq> ''flags'' \<Longrightarrow> flags_of (dict_set st k v) = flags_of st"
  by (simp add: flags_of_def dict_get_set)

lemma list_all_dict_set:
  "list_all P d \<Longrightarrow> P (k, v) \<Longrightarrow> list_all P (dict_set d k v)"
  unfolding dict_set_def by (rule list_all_update)

lemma flags_ok_flags_of: "flags_ok st \<Longrightarrow> list_all (\<lambda>(k, v). is_bool v) (flags_of st)"
  by (auto simp: flags_ok_def flags_of_def split: option.splits json.splits)

lemma flags_ok_set_flag:
  assumes "flags_ok st"
  shows "flags_ok (dict_set st ''flags'' (JObject (dict_set (flags_of st) f (JBool True))))"
proof -
  have "list_all (\<lambda>(k, v). is_bool v) (dict_set (flags_of st) f (JBool True))"
    using flags_ok_flags_of [OF assms] by (rule list_all_dict_set) (simp add: is_bool_def)
  then show ?thesis by (simp add: flags_ok_def dict_get_set)
qed

lemma flag_on_set_flag:
  "flag_on (dict_set st ''flags'' (JObject (dict_set (flags_of st) f (JBool True)))) g
     = (g = f \<or> flag_on st g)"
  by (auto simp: flag_on_def dict_get_set)


lemma inventory_of_set [simp]: "inventory_of (dict_set st ''inventory'' (JArray xs)) = xs"
  by (simp add: inventory_of_def dict_get_set)

lemma add_item_eq:
  assumes "inventory_ok st"
  shows "apply_atom st (''add_item:'' @ r) =
           Inr (dict_set st ''inventory''
                 (JArray (if JString (strip r) \<in> set (inventory_of st) then inventory_of st
                          else inventory_of st @ [JString (strip r)])))"
proof (cases "dict_get st ''inventory''")
  case None
  then show ?thesis unfolding apply_atom_add_item
    by (simp add: setdefault_def inventory_of_def dict_set_twice)
next
  case (Some v)
  with assms obtain xs where "v = JArray xs"
    by (cases v) (simp_all add: inventory_ok_def)
  with Some show ?thesis unfolding apply_atom_add_item
    by (simp add: setdefault_def inventory_of_def)
qed

lemma remove_item_eq:
  assumes "inventory_ok st"
  shows "apply_atom st (''remove_item:'' @ r) =
           (if dict_get st ''inventory'' = None then Inr st
            else Inr (dict_set st ''inventory''
                       (JArray (remove1 (JString (strip r)) (inventory_of st)))))"
proof (cases "dict_get st ''inventory''")
  case None
  then show ?thesis unfolding apply_atom_remove_item by simp
next
  case (Some v)
  with assms obtain xs where "v = JArray xs"
    by (cases v) (simp_all add: inventory_ok_def)
  with Some show ?thesis unfolding apply_atom_remove_item
    by (simp add: inventory_of_def)
qed

lemma add_int_hp: "hp_ok st \<Longrightarrow> add_int (dict_get_default st ''hp'' (JInt 0)) d = Inr (hp_of st + d)"
  by (auto simp: hp_ok_def hp_of_def dict_get_default_def split: option.splits json.splits)

lemma flags_ok_set_other: "k \<noteq> ''flags'' \<Longrightarrow> flags_ok (dict_set st k v) = flags_ok st"
  by (simp add: flags_ok_def dict_get_set)

lemma hp_delta_eq:
  assumes "hp_ok st" and "flags_ok st"
  shows "apply_atom st (''hp_delta:'' @ r) =
           Inr (let st' = dict_set st ''hp'' (JInt (hp_of st + delta_of r)) in
                if hp_of st + delta_of r \<le> 0
                then dict_set st' ''flags'' (JObject (dict_set (flags_of st) ''hp_zero'' (JBool True)))
                else st')"
  using assms unfolding apply_atom_hp_delta
  by (simp add: add_int_hp Let_def set_flag_true_eq flags_ok_set_other flags_of_set_other)

lemma set_flag_eq:
  "flags_ok st \<Longrightarrow> apply_atom st (''set_flag:'' @ r) =
     Inr (dict_set st ''flags'' (JObject (dict_set (flags_of st) (strip r) (JBool True))))"
  unfolding apply_atom_set_flag by (simp add: set_flag_true_eq)

lemma step_ok_refl: "GameState st \<Longrightarrow> step_ok st st"
  by (simp add: step_ok_def)

lemma step_ok_trans: "step_ok a b \<Longrightarrow> step_ok b c \<Longrightarrow> step_ok a c"
  by (simp add: step_ok_def)

lemma flag_on_set_other: "k \<noteq> ''flags'' \<Longrightarrow> flag_on (dict_set st k v) g = flag_on st g"
  by (simp add: flag_on_def flags_of_set_other)

lemma GameState_set_location: "GameState st \<Longrightarrow> GameState (dict_set st ''location'' (JString s))"
  by (simp add: ok_defs dict_get_set is_str_def)

lemma GameState_set_inventory:
  "GameState st \<Longrightarrow> list_all is_str xs \<Longrightarrow> distinct xs \<Longrightarrow>
   GameState (dict_set st ''inventory'' (JArray xs))"
  by (simp add: ok_defs dict_get_set)

lemma GameState_set_hp: "GameState st \<Longrightarrow> GameState (dict_set st ''hp'' (JInt n))"
  by (simp add: ok_defs dict_get_set)

lemma GameState_set_flag:
  assumes "GameState st"
  shows "GameState (dict_set st ''flags'' (JObject (dict_set (flags_of st) f (JBool True))))"
proof -
  from assms have "flags_ok st" by (simp add: GameState_def)
  then have "flags_ok (dict_set st ''flags'' (JObject (dict_set (flags_of st) f (JBool True))))"
    by (rule flags_ok_set_flag)
  with assms show ?thesis
    by (simp add: GameState_def location_ok_def inventory_ok_def hp_ok_def turns_ok_def dict_get_set)
qed

lemma inventory_ok_of: "inventory_ok st \<Longrightarrow> list_all is_str (inventory_of st) \<and> distinct (inventory_of st)"
  by (auto simp: inventory_ok_def inventory_of_def split: option.splits json.splits)

lemma apply_atom_step_ok:
  assumes gs: "GameState st"
  shows "\<exists>st'. apply_atom st atom = Inr st' \<and> step_ok st st'"
proof (cases "recognised atom")
  case False
  with gs show ?thesis by (simp add: apply_atom_unrecognised step_ok_refl)
next
  case True
  from gs have oks: "inventory_ok st" "flags_ok st" "hp_ok st"
    by (simp_all add: GameState_def)
  note inv = inventory_ok_of [OF oks(1)]
  from True show ?thesis
  proof (cases rule: recognised_cases)
    case (1 r)
    with gs show ?thesis unfolding 1 apply_atom_move_to
      by (simp add: step_ok_def GameState_set_location dict_get_set flag_on_set_other)
  next
    case (2 r)
    have "GameState (dict_set st ''inventory''
             (JArray (if JString (strip r) \<in> set (inventory_of st) then inventory_of st
                      else inventory_of st @ [JString (strip r)])))"
      using gs inv by (intro GameState_set_inventory) (auto simp: is_str_def)
    with oks show ?thesis unfolding 2 add_item_eq [OF oks(1)]
      by (simp add: step_ok_def dict_get_set flag_on_set_other)
  next
    case (3 r)
    have "GameState (dict_set st ''inventory'' (JArray (remove1 (JString (strip r)) (inventory_of st))))"
      using gs inv by (intro GameState_set_inventory) (auto simp: list_all_iff dest: notin_set_remove1)
    with oks gs show ?thesis unfolding 3 remove_item_eq [OF oks(1)]
      by (simp add: step_ok_def dict_get_set flag_on_set_other)
  next
    case (4 r)
    with oks gs show ?thesis unfolding 4 set_flag_eq [OF oks(2)]
      by (simp add: step_ok_def GameState_set_flag dict_get_set flag_on_set_flag)
  next
    case (5 r)
    let ?st1 = "dict_set st ''hp'' (JInt (hp_of st + delta_of r))"
    have g1: "GameState ?st1" using gs by (rule GameState_set_hp)
    have f1: "flags_of ?st1 = flags_of st" by (simp add: flags_of_set_other)
    have "GameState (dict_set ?st1 ''flags'' (JObject (dict_set (flags_of st) ''hp_zero'' (JBool True))))"
      using GameState_set_flag [OF g1, of "''hp_zero''"] by (simp add: f1)
    with oks g1 show ?thesis
      using flag_on_set_flag [of ?st1 "''hp_zero''"]
      unfolding 5 hp_delta_eq [OF oks(3) oks(2)]
      by (simp add: step_ok_def dict_get_set flag_on_set_other f1 Let_def)
  qed
qed

lemma apply_items_step_ok:
  "GameState st \<Longrightarrow> \<exists>st'. apply_items st (map JString xs) = Inr st' \<and> step_ok st st'"
proof (induction xs arbitrary: st)
  case Nil
  then show ?case by (simp add: step_ok_refl)
next
  case (Cons a xs)
  from apply_atom_step_ok [OF Cons.prems, of a]
  obtain st1 where a: "apply_atom st a = Inr st1" and s1: "step_ok st st1" by blast
  from s1 have "GameState st1" by (simp add: step_ok_def)
  from Cons.IH [OF this] obtain st2 where
    b: "apply_items st1 (map JString xs) = Inr st2" and s2: "step_ok st1 st2" by blast
  from a b step_ok_trans [OF s1 s2] show ?case by simp
qed

lemma bump_turns_eq:
  "turns_ok st \<Longrightarrow> bump_turns st = Inr (dict_set st ''turns'' (JInt (turns_of st + 1)))"
  by (auto simp: bump_turns_def turns_ok_def turns_of_def dict_get_default_def
           split: option.splits json.splits)

lemma turns_of_set [simp]: "turns_of (dict_set st ''turns'' (JInt n)) = n"
  by (simp add: turns_of_def dict_get_set)

lemma GameState_bump:
  "GameState st \<Longrightarrow> GameState (dict_set st ''turns'' (JInt (turns_of st + 1)))"
  by (auto simp: ok_defs dict_get_set turns_of_def split: option.splits json.splits)

lemma apply_items_append:
  "apply_items st (xs @ ys) =
     (case apply_items st xs of Inl e \<Rightarrow> Inl e | Inr st' \<Rightarrow> apply_items st' ys)"
  by (induction xs arbitrary: st) (auto split: sum.splits)

lemma apply_state_changes_atoms:
  "apply_state_changes st (atoms xs) =
     (case apply_items st (map JString xs) of Inl e \<Rightarrow> Inl e | Inr st' \<Rightarrow> bump_turns st')"
  by (simp add: apply_state_changes_def atoms_def)

lemma batch_ok:
  assumes "GameState st"
  obtains st1 where "apply_items st (map JString xs) = Inr st1" and "step_ok st st1"
    and "apply_state_changes st (atoms xs) = Inr (dict_set st1 ''turns'' (JInt (turns_of st + 1)))"
    and "GameState (dict_set st1 ''turns'' (JInt (turns_of st + 1)))"
proof -
  from apply_items_step_ok [OF assms, of xs] obtain st1 where
    a: "apply_items st (map JString xs) = Inr st1" and s: "step_ok st st1" by blast
  from s have g1: "GameState st1" and t: "turns_of st1 = turns_of st"
    by (simp_all add: step_ok_def turns_of_def)
  from g1 have "turns_ok st1" by (simp add: GameState_def)
  from bump_turns_eq [OF this] a t
  have b: "apply_state_changes st (atoms xs) = Inr (dict_set st1 ''turns'' (JInt (turns_of st + 1)))"
    by (simp add: apply_state_changes_atoms)
  from GameState_bump [OF g1] t
  have "GameState (dict_set st1 ''turns'' (JInt (turns_of st + 1)))" by simp
  with a s b show thesis by (rule that)
qed

text \<open>
  C4. In a state of the data model, one call of the mutator on any batch of string
  atoms (empty, malformed or unknown atoms included) returns, and the turn counter of
  the state it leaves is the old one plus exactly 1, whatever the length of the batch.
  A missing counter reads as 0.
\<close>
theorem turns_increase_by_one:
  assumes "GameState st"
  shows "\<exists>st'. apply_state_changes st (atoms batch) = Inr st' \<and> turns_of st' = turns_of st + 1"
proof -
  from assms obtain st1 where
    "apply_state_changes st (atoms batch) = Inr (dict_set st1 ''turns'' (JInt (turns_of st + 1)))"
    by (rule batch_ok)
  then show ?thesis by simp
qed

theorem turns_increase_by_one_witness:
  "GameState [(''turns'', JInt 4)] \<and>
   (\<exists>st'. apply_state_changes [(''turns'', JInt 4)] (atoms [''bogus'', ''hp_delta:x'']) = Inr st'
          \<and> turns_of st' = 5) \<and>
   (\<exists>st'. apply_state_changes [(''turns'', JInt 4)] (atoms []) = Inr st' \<and> turns_of st' = 5)"
proof -
  have g: "GameState [(''turns'', JInt 4)]"
    by (simp add: ok_defs dict_get_def)
  have t: "turns_of [(''turns'', JInt 4)] = 4"
    by (simp add: turns_of_def dict_get_def)
  from turns_increase_by_one [OF g, of "[''bogus'', ''hp_delta:x'']"]
       turns_increase_by_one [OF g, of "[]"] g t
  show ?thesis by simp
qed

text \<open>
  C6. In a state of the data model the mutator completes on every list of string
  atoms without raising, and the state it leaves is again one of the data model; no
  single atom raises, whatever its payload; and an atom that starts with none of
  \<^verbatim>\<open>move_to:\<close>, \<^verbatim>\<open>add_item:\<close>, \<^verbatim>\<open>remove_item:\<close>, \<^verbatim>\<open>set_flag:\<close>, \<^verbatim>\<open>hp_delta:\<close>
  leaves the state exactly as it was.
\<close>
theorem mutator_never_raises:
  assumes "GameState st"
  shows "(\<exists>st'. apply_state_changes st (atoms batch) = Inr st' \<and> GameState st') \<and>
         (\<exists>st'. apply_atom st atom = Inr st' \<and> GameState st') \<and>
         (\<not> recognised atom \<longrightarrow> apply_atom st atom = Inr st)"
proof (intro conjI)
  from assms obtain st1 where
    "apply_state_changes st (atoms batch) = Inr (dict_set st1 ''turns'' (JInt (turns_of st + 1)))"
    "GameState (dict_set st1 ''turns'' (JInt (turns_of st + 1)))"
    by (rule batch_ok)
  then show "\<exists>st'. apply_state_changes st (atoms batch) = Inr st' \<and> GameState st'" by blast
next
  from apply_atom_step_ok [OF assms, of atom]
  show "\<exists>st'. apply_atom st atom = Inr st' \<and> GameState st'"
    by (auto simp: step_ok_def)
next
  show "\<not> recognised atom \<longrightarrow> apply_atom st atom = Inr st"
    by (simp add: apply_atom_unrecognised)
qed

theorem mutator_never_raises_witness:
  "GameState [(''hp'', JInt 3)] \<and> \<not> recognised ''dance:wildly'' \<and>
   apply_atom [(''hp'', JInt 3)] ''dance:wildly'' = Inr [(''hp'', JInt 3)] \<and>
   (\<exists>st'. apply_state_changes [(''hp'', JInt 3)] (atoms [''hp_delta:'', ''move_to'', []]) = Inr st'
      \<and> GameState st')"
proof -
  have g: "GameState [(''hp'', JInt 3)]"
    by (simp add: ok_defs dict_get_def)
  have n: "\<not> recognised ''dance:wildly''"
    by (simp add: recognised_def startswith_def)
  from mutator_never_raises [OF g, of "[''hp_delta:'', ''move_to'', []]" "''dance:wildly''"] g n
  show ?thesis by simp
qed

lemma step_ok_flag: "step_ok a b \<Longrightarrow> flag_on a g \<Longrightarrow> flag_on b g"
  by (simp add: step_ok_def)

lemma hp_of_set [simp]: "hp_of (dict_set st ''hp'' (JInt n)) = n"
  by (simp add: hp_of_def dict_get_set)

lemma hp_of_set_other: "k \<noteq> ''hp'' \<Longrightarrow> hp_of (dict_set st k v) = hp_of st"
  by (simp add: hp_of_def dict_get_set)

lemma hp_delta_result:
  assumes "GameState st" and "apply_atom st (''hp_delta:'' @ p) = Inr st'"
  shows "hp_of st' = hp_of st + delta_of p \<and> (hp_of st' \<le> 0 \<longrightarrow> flag_on st' ''hp_zero'')"
proof -
  from assms(1) have oks: "hp_ok st" "flags_ok st" by (simp_all add: GameState_def)
  let ?st1 = "dict_set st ''hp'' (JInt (hp_of st + delta_of p))"
  have f1: "flags_of ?st1 = flags_of st" by (simp add: flags_of_set_other)
  show ?thesis
    using assms(2) flag_on_set_flag [of ?st1 "''hp_zero''" "''hp_zero''"]
    unfolding hp_delta_eq [OF oks]
    by (auto simp: Let_def hp_of_set_other f1 split: if_splits)
qed

text \<open>
  C3. A batch with an atom \<^verbatim>\<open>hp_delta:N\<close> somewhere in it runs to its end. At
  that atom the hit points grow by \<open>N\<close>, or by 0 when \<open>N\<close> is not an integer
  literal; if they are at most 0 right after it, the flag \<^verbatim>\<open>hp_zero\<close> is on
  there and is still on when the batch is over, whatever atoms follow; and a flag
  \<^verbatim>\<open>hp_zero\<close> that is on before a batch is on after it.
\<close>
theorem hp_delta_sets_sticky_flag:
  assumes "GameState st"
  shows "\<exists>st1 st2 st3.
           apply_items st (map JString pre) = Inr st1 \<and>
           apply_atom st1 (''hp_delta:'' @ p) = Inr st2 \<and>
           apply_state_changes st (atoms (pre @ [''hp_delta:'' @ p] @ post)) = Inr st3 \<and>
           hp_of st2 = hp_of st1 + (case py_int p of Some n \<Rightarrow> n | None \<Rightarrow> 0) \<and>
           (hp_of st2 \<le> 0 \<longrightarrow> flag_on st2 ''hp_zero'' \<and> flag_on st3 ''hp_zero'') \<and>
           (flag_on st ''hp_zero'' \<longrightarrow> flag_on st3 ''hp_zero'')"
proof -
  from apply_items_step_ok [OF assms, of pre] obtain st1 where
    a1: "apply_items st (map JString pre) = Inr st1" and s1: "step_ok st st1" by blast
  from s1 have g1: "GameState st1" by (simp add: step_ok_def)
  from apply_atom_step_ok [OF g1, of "''hp_delta:'' @ p"] obtain st2 where
    a2: "apply_atom st1 (''hp_delta:'' @ p) = Inr st2" and s2: "step_ok st1 st2" by blast
  from s2 have g2: "GameState st2" by (simp add: step_ok_def)
  from apply_items_step_ok [OF g2, of post] obtain st2' where
    a3: "apply_items st2 (map JString post) = Inr st2'" and s3: "step_ok st2 st2'" by blast
  from s3 have g3: "GameState st2'" by (simp add: step_ok_def)
  then have t3: "turns_ok st2'" by (simp add: GameState_def)
  let ?st3 = "dict_set st2' ''turns'' (JInt (turns_of st2' + 1))"
  have items: "apply_items st (map JString (pre @ [''hp_delta:'' @ p] @ post)) = Inr st2'"
    using a1 a2 a3 by (simp add: apply_items_append del: append.simps)
  have a4: "apply_state_changes st (atoms (pre @ [''hp_delta:'' @ p] @ post)) = Inr ?st3"
    unfolding apply_state_changes_atoms items by (simp add: bump_turns_eq [OF t3])
  have keep: "flag_on st2' g \<Longrightarrow> flag_on ?st3 g" for g
    by (simp add: flag_on_set_other)
  from hp_delta_result [OF g1 a2]
  have h: "hp_of st2 = hp_of st1 + (case py_int p of Some n \<Rightarrow> n | None \<Rightarrow> 0)"
    and z: "hp_of st2 \<le> 0 \<longrightarrow> flag_on st2 ''hp_zero''"
    by (simp_all add: delta_of_def split: option.splits)
  have z3: "hp_of st2 \<le> 0 \<longrightarrow> flag_on ?st3 ''hp_zero''"
    using z step_ok_flag [OF s3] keep by blast
  have k: "flag_on st ''hp_zero'' \<longrightarrow> flag_on ?st3 ''hp_zero''"
    using step_ok_flag [OF s1] step_ok_flag [OF s2] step_ok_flag [OF s3] keep by blast
  from a1 a2 a4 h z z3 k show ?thesis by blast
qed

theorem hp_delta_sets_sticky_flag_witness:
  "GameState [(''hp'', JInt 10)] \<and>
   (\<exists>st1 st2 st3.
      apply_items [(''hp'', JInt 10)] (map JString []) = Inr st1 \<and>
      apply_atom st1 (''hp_delta:'' @ ''-15'') = Inr st2 \<and>
      apply_state_changes [(''hp'', JInt 10)]
        (atoms ([] @ [''hp_delta:'' @ ''-15''] @ [''hp_delta:20''])) = Inr st3 \<and>
      hp_of st2 = hp_of st1 + (case py_int ''-15'' of Some n \<Rightarrow> n | None \<Rightarrow> 0) \<and>
      (hp_of st2 \<le> 0 \<longrightarrow> flag_on st2 ''hp_zero'' \<and> flag_on st3 ''hp_zero'') \<and>
      (flag_on [(''hp'', JInt 10)] ''hp_zero'' \<longrightarrow> flag_on st3 ''hp_zero'')) \<and>
   apply_state_changes [(''hp'', JInt 10)] (atoms [''hp_delta:-15'', ''hp_delta:20'']) =
     Inr [(''hp'', JInt 15), (''flags'', JObject [(''hp_zero'', JBool True)]), (''turns'', JInt 1)]"
proof -
  have g: "GameState [(''hp'', JInt 10)]"
    by (simp add: ok_defs dict_get_def)
  have e: "apply_state_changes [(''hp'', JInt 10)] (atoms [''hp_delta:-15'', ''hp_delta:20'']) =
     Inr [(''hp'', JInt 15), (''flags'', JObject [(''hp_zero'', JBool True)]), (''turns'', JInt 1)]"
    by code_simp
  from hp_delta_sets_sticky_flag [OF g, of "[]" "''-15''" "[''hp_delta:20'']"] g e
  show ?thesis by blast
qed

lemma count_list_distinct: "distinct xs \<Longrightarrow> x \<in> set xs \<Longrightarrow> count_list xs x = 1"
  by (induction xs) auto

lemma inventory_of_set_other: "k \<noteq> ''inventory'' \<Longrightarrow> inventory_of (dict_set st k v) = inventory_of st"
  by (simp add: inventory_of_def dict_get_set)

lemma inventory_ok_set_other: "k \<noteq> ''inventory'' \<Longrightarrow> inventory_ok (dict_set st k v) = inventory_ok st"
  by (simp add: inventory_ok_def dict_get_set)

lemma apply_state_changes_single:
  "apply_state_changes st (atoms [a]) =
     (case apply_atom st a of Inl e \<Rightarrow> Inl e | Inr st' \<Rightarrow> bump_turns st')"
  by (simp add: apply_state_changes_atoms split: sum.splits)

lemma apply_state_changes_pair:
  "apply_state_changes st (atoms [a, b]) =
     (case apply_atom st a of Inl e \<Rightarrow> Inl e
      | Inr st1 \<Rightarrow> (case apply_atom st1 b of Inl e \<Rightarrow> Inl e | Inr st2 \<Rightarrow> bump_turns st2))"
  by (simp add: apply_state_changes_atoms split: sum.splits)

lemma added_props:
  assumes "GameState st"
  shows "apply_atom st (''add_item:'' @ p) = Inr (added p st)"
    and "GameState (added p st)"
    and "JString (strip p) \<in> set (inventory_of (added p st))"
    and "added p (added p st) = added p st"
    and "dict_get (added p st) ''inventory'' \<noteq> None"
    and "dict_get (added p st) ''turns'' = dict_get st ''turns''"
proof -
  from assms have io: "inventory_ok st" by (simp add: GameState_def)
  show a: "apply_atom st (''add_item:'' @ p) = Inr (added p st)"
    unfolding added_def by (rule add_item_eq [OF io])
  from apply_atom_step_ok [OF assms, of "''add_item:'' @ p"] a
  show "GameState (added p st)" by (simp add: step_ok_def)
  show "JString (strip p) \<in> set (inventory_of (added p st))"
    by (simp add: added_def)
  show "added p (added p st) = added p st"
    by (simp add: added_def dict_set_twice)
  show "dict_get (added p st) ''inventory'' \<noteq> None"
    by (simp add: added_def dict_get_set)
  show "dict_get (added p st) ''turns'' = dict_get st ''turns''"
    by (simp add: added_def dict_get_set)
qed

lemma bump_turns_GameState:
  assumes "GameState st"
  shows "bump_turns st = Inr (dict_set st ''turns'' (JInt (turns_of st + 1)))"
  using assms by (simp add: GameState_def bump_turns_eq)

text \<open>
  C7. Adding the same item twice, in one batch or in two successive batches, gives the
  inventory that adding it once gives: the item is in it exactly once, the items that
  were there keep their places, and a new item goes to the end.
\<close>
theorem add_item_idempotent:
  assumes "GameState st"
  shows "\<exists>st1 st2 st3.
           apply_state_changes st (atoms [''add_item:'' @ p]) = Inr st1 \<and>
           apply_state_changes st (atoms [''add_item:'' @ p, ''add_item:'' @ p]) = Inr st2 \<and>
           apply_state_changes st1 (atoms [''add_item:'' @ p]) = Inr st3 \<and>
           inventory_of st2 = inventory_of st1 \<and>
           inventory_of st3 = inventory_of st1 \<and>
           count_list (inventory_of st1) (JString (strip p)) = 1 \<and>
           inventory_of st1 =
             (if JString (strip p) \<in> set (inventory_of st) then inventory_of st
              else inventory_of st @ [JString (strip p)])"
proof -
  note a = added_props [OF assms, of p]
  let ?s = "added p st"
  let ?st1 = "dict_set ?s ''turns'' (JInt (turns_of ?s + 1))"
  have g1: "GameState ?st1" using a(2) by (rule GameState_bump)
  have i1: "inventory_of ?st1 = inventory_of ?s" by (simp add: inventory_of_set_other)
  have e1: "apply_state_changes st (atoms [''add_item:'' @ p]) = Inr ?st1"
    unfolding apply_state_changes_single a(1) by (simp add: bump_turns_GameState [OF a(2)])
  have e2: "apply_state_changes st (atoms [''add_item:'' @ p, ''add_item:'' @ p]) = Inr ?st1"
  proof -
    have "apply_atom ?s (''add_item:'' @ p) = Inr ?s"
      using added_props(1) [OF a(2), of p] a(4) by simp
    then show ?thesis
      by (simp only: apply_state_changes_pair a(1) sum.case bump_turns_GameState [OF a(2)])
  qed
  note b = added_props [OF g1, of p]
  let ?st3 = "dict_set (added p ?st1) ''turns'' (JInt (turns_of (added p ?st1) + 1))"
  have e3: "apply_state_changes ?st1 (atoms [''add_item:'' @ p]) = Inr ?st3"
    unfolding apply_state_changes_single b(1) by (simp add: bump_turns_GameState [OF b(2)])
  have i3: "inventory_of ?st3 = inventory_of ?s"
    using a(3) by (simp add: inventory_of_set_other added_def [of p ?st1] i1)
  from a(2) have "inventory_ok ?s" by (simp add: GameState_def)
  then have "distinct (inventory_of ?s)" by (simp add: inventory_ok_of)
  then have c: "count_list (inventory_of ?s) (JString (strip p)) = 1"
    using a(3) by (rule count_list_distinct)
  have o: "inventory_of ?s =
             (if JString (strip p) \<in> set (inventory_of st) then inventory_of st
              else inventory_of st @ [JString (strip p)])"
    by (simp add: added_def)
  from e1 e2 e3 i1 i3 c o show ?thesis by (metis (no_types, lifting))
qed

theorem add_item_idempotent_witness:
  "GameState [(''inventory'', JArray [JString ''lamp''])] \<and>
   (\<exists>st1 st2 st3.
      apply_state_changes [(''inventory'', JArray [JString ''lamp''])]
         (atoms [''add_item:'' @ ''sword'']) = Inr st1 \<and>
      apply_state_changes [(''inventory'', JArray [JString ''lamp''])]
         (atoms [''add_item:'' @ ''sword'', ''add_item:'' @ ''sword'']) = Inr st2 \<and>
      apply_state_changes st1 (atoms [''add_item:'' @ ''sword'']) = Inr st3 \<and>
      inventory_of st2 = inventory_of st1 \<and>
      inventory_of st3 = inventory_of st1 \<and>
      count_list (inventory_of st1) (JString (strip ''sword'')) = 1 \<and>
      inventory_of st1 = [JString ''lamp'', JString ''sword''])"
proof -
  have g: "GameState [(''inventory'', JArray [JString ''lamp''])]"
    by (simp add: ok_defs dict_get_def is_str_def)
  have i: "inventory_of [(''inventory'', JArray [JString ''lamp''])] = [JString ''lamp'']"
    by (simp add: inventory_of_def dict_get_def)
  have s: "strip ''sword'' = ''sword''" by code_simp
  from add_item_idempotent [OF g, of "''sword''"] g
  show ?thesis unfolding i s by simp
qed

lemma remove_item_list:
  assumes "dict_get s ''inventory'' = Some (JArray xs)"
  shows "apply_atom s (''remove_item:'' @ p) =
           Inr (dict_set s ''inventory'' (JArray (remove1 (JString (strip p)) xs)))"
  unfolding apply_atom_remove_item using assms by simp

lemma remove_item_absent:
  assumes "inventory_ok st" and "JString (strip p) \<notin> set (inventory_of st)"
  shows "apply_atom st (''remove_item:'' @ p) = Inr st"
proof (cases "dict_get st ''inventory''")
  case None
  then show ?thesis unfolding apply_atom_remove_item by simp
next
  case (Some v)
  with assms(1) obtain xs where v: "v = JArray xs"
    by (cases v) (simp_all add: inventory_ok_def)
  with Some assms(2) have "JString (strip p) \<notin> set xs"
    by (simp add: inventory_of_def)
  then have "remove1 (JString (strip p)) xs = xs" by (rule remove1_idem)
  with Some v show ?thesis
    unfolding remove_item_list [of st xs p, OF Some [unfolded v]]
    by (simp add: dict_set_same)
qed

text \<open>
  C8. For an item that is not in the inventory, the batch that removes it and then adds
  it leaves the inventory with the item at its end (the removal changes nothing), and
  the batch that adds it and then removes it leaves the inventory as it was, without
  the item. On any inventory list \<^verbatim>\<open>remove_item\<close> deletes the first occurrence
  only.
\<close>
theorem inventory_order_matters:
  assumes "GameState st" and "JString (strip p) \<notin> set (inventory_of st)"
  shows "\<exists>st1 st2.
           apply_state_changes st (atoms [''remove_item:'' @ p, ''add_item:'' @ p]) = Inr st1 \<and>
           inventory_of st1 = inventory_of st @ [JString (strip p)] \<and>
           apply_state_changes st (atoms [''add_item:'' @ p, ''remove_item:'' @ p]) = Inr st2 \<and>
           inventory_of st2 = inventory_of st \<and>
           apply_atom st (''remove_item:'' @ p) = Inr st \<and>
           (\<forall>s xs. dict_get s ''inventory'' = Some (JArray xs) \<longrightarrow>
              apply_atom s (''remove_item:'' @ p) =
                Inr (dict_set s ''inventory'' (JArray (remove1 (JString (strip p)) xs))))"
proof -
  from assms(1) have io: "inventory_ok st" by (simp add: GameState_def)
  note r0 = remove_item_absent [OF io assms(2)]
  note a = added_props [OF assms(1), of p]
  let ?s = "added p st"
  have ia: "inventory_of ?s = inventory_of st @ [JString (strip p)]"
    using assms(2) by (simp add: added_def)
  let ?st1 = "dict_set ?s ''turns'' (JInt (turns_of ?s + 1))"
  have e1: "apply_state_changes st (atoms [''remove_item:'' @ p, ''add_item:'' @ p]) = Inr ?st1"
    by (simp only: apply_state_changes_pair r0 a(1) sum.case bump_turns_GameState [OF a(2)])
  have i1: "inventory_of ?st1 = inventory_of st @ [JString (strip p)]"
    by (simp add: inventory_of_set_other ia)
  have ds: "dict_get ?s ''inventory'' = Some (JArray (inventory_of st @ [JString (strip p)]))"
    using assms(2) by (simp add: added_def dict_get_set)
  let ?r = "dict_set ?s ''inventory''
              (JArray (remove1 (JString (strip p)) (inventory_of st @ [JString (strip p)])))"
  have r1: "apply_atom ?s (''remove_item:'' @ p) = Inr ?r"
    by (rule remove_item_list [OF ds])
  have rm: "remove1 (JString (strip p)) (inventory_of st @ [JString (strip p)]) = inventory_of st"
    using assms(2) by (simp add: remove1_append)
  have ir: "inventory_of ?r = inventory_of st" by (simp add: rm)
  from apply_atom_step_ok [OF a(2), of "''remove_item:'' @ p"] r1
  have gr: "GameState ?r" by (simp add: step_ok_def)
  let ?st2 = "dict_set ?r ''turns'' (JInt (turns_of ?r + 1))"
  have e2: "apply_state_changes st (atoms [''add_item:'' @ p, ''remove_item:'' @ p]) = Inr ?st2"
    by (simp only: apply_state_changes_pair a(1) r1 sum.case bump_turns_GameState [OF gr])
  have i2: "inventory_of ?st2 = inventory_of st"
    using ir by (simp add: inventory_of_set_other)
  have all: "\<forall>s xs. dict_get s ''inventory'' = Some (JArray xs) \<longrightarrow>
              apply_atom s (''remove_item:'' @ p) =
                Inr (dict_set s ''inventory'' (JArray (remove1 (JString (strip p)) xs)))"
    by (blast intro: remove_item_list)
  from e1 i1 e2 i2 r0 all show ?thesis by blast
qed

theorem inventory_order_matters_witness:
  "GameState [(''inventory'', JArray [JString ''lamp''])] \<and>
   JString (strip ''sword'') \<notin> set (inventory_of [(''inventory'', JArray [JString ''lamp''])]) \<and>
   apply_state_changes [(''inventory'', JArray [JString ''lamp''])]
      (atoms [''remove_item:sword'', ''add_item:sword'']) =
     Inr [(''inventory'', JArray [JString ''lamp'', JString ''sword'']), (''turns'', JInt 1)] \<and>
   apply_state_changes [(''inventory'', JArray [JString ''lamp''])]
      (atoms [''add_item:sword'', ''remove_item:sword'']) =
     Inr [(''inventory'', JArray [JString ''lamp'']), (''turns'', JInt 1)] \<and>
   apply_atom [(''inventory'', JArray [JString ''sword'', JString ''lamp'', JString ''sword''])]
      (''remove_item:'' @ ''sword'') =
     Inr (dict_set [(''inventory'', JArray [JString ''sword'', JString ''lamp'', JString ''sword''])]
            ''inventory'' (JArray (remove1 (JString (strip ''sword''))
               [JString ''sword'', JString ''lamp'', JString ''sword''])))"
proof -
  have g: "GameState [(''inventory'', JArray [JString ''lamp''])]"
    by (simp add: ok_defs dict_get_def is_str_def)
  have n: "JString (strip ''sword'') \<notin> set (inventory_of [(''inventory'', JArray [JString ''lamp''])])"
    by code_simp
  have d: "dict_get [(''inventory'', JArray [JString ''sword'', JString ''lamp'', JString ''sword''])]
             ''inventory'' = Some (JArray [JString ''sword'', JString ''lamp'', JString ''sword''])"
    by (simp add: dict_get_def)
  have e1: "apply_state_changes [(''inventory'', JArray [JString ''lamp''])]
      (atoms [''remove_item:sword'', ''add_item:sword'']) =
     Inr [(''inventory'', JArray [JString ''lamp'', JString ''sword'']), (''turns'', JInt 1)]"
    by code_simp
  have e2: "apply_state_changes [(''inventory'', JArray [JString ''lamp''])]
      (atoms [''add_item:sword'', ''remove_item:sword'']) =
     Inr [(''inventory'', JArray [JString ''lamp'']), (''turns'', JInt 1)]"
    by code_simp
  from inventory_order_matters [OF g n] d g n e1 e2
  show ?thesis by blast
qed

lemma flag_truth_GameState:
  assumes "flags_ok st"
  shows "flag_truth (dict_get_default st ''flags'' (JObject [])) (JString f) = Inr (flag_on st f)"
proof (cases "dict_get st ''flags''")
  case None
  then show ?thesis
    by (simp add: dict_get_default_def flag_on_def flags_of_def dict_get_def)
next
  case (Some v)
  with assms obtain fl where v: "v = JObject fl" and b: "list_all (\<lambda>(k, v). is_bool v) fl"
    by (cases v) (simp_all add: flags_ok_def)
  have "truthy w = Inr (w = JBool True)" if "dict_get fl f = Some w" for w
  proof -
    from that have "(f, w) \<in> set fl" by (simp add: dict_get_def map_of_SomeD)
    with b have "is_bool w" by (auto simp: list_all_iff)
    then show ?thesis by (cases w) (simp_all add: is_bool_def)
  qed
  with Some v show ?thesis
    by (auto simp: dict_get_default_def flag_on_def flags_of_def split: option.splits)
qed

lemma all_flags_GameState:
  assumes "flags_ok st"
  shows "all_flags (dict_get_default st ''flags'' (JObject [])) (map JString fs)
           = Inr (list_all (flag_on st) fs)"
  by (induction fs) (simp_all add: flag_truth_GameState [OF assms])

lemma any_flags_GameState:
  assumes "flags_ok st"
  shows "any_flags (dict_get_default st ''flags'' (JObject [])) (map JString fs)
           = Inr (list_ex (flag_on st) fs)"
  by (induction fs) (simp_all add: flag_truth_GameState [OF assms])

lemma py_ge_turns:
  assumes "turns_ok st"
  shows "py_ge (dict_get_default st ''turns'' (JInt 0)) (map_option JInt m)
           = Inr (case m of None \<Rightarrow> False | Some n \<Rightarrow> n \<le> turns_of st)"
  using assms
  by (auto simp: turns_ok_def turns_of_def dict_get_default_def py_ge_def
           split: option.splits json.splits)

text \<open>
  C2. On well-typed end conditions and a state of the data model the evaluator
  computes what the specification's order WIN, LOSE, TURNS gives, where WIN asks for
  every flag of \<^verbatim>\<open>WIN_ALL_FLAGS\<close> to be present and true; without \<^verbatim>\<open>MAX_TURNS\<close>
  the turn limit is never the answer; and with an empty \<^verbatim>\<open>WIN_ALL_FLAGS\<close> the
  answer is the win, whatever the state and the other conditions are.
\<close>
theorem end_conditions_in_order:
  "(dict_get rs ''END_CONDITIONS'' = Some (JObject ec) \<and>
    dict_get ec ''WIN_ALL_FLAGS'' = Some (JArray (map JString win)) \<and>
    dict_get ec ''LOSE_ANY_FLAGS'' = Some (JArray (map JString lose)) \<and>
    dict_get ec ''MAX_TURNS'' = map_option JInt max_turns \<and>
    GameState st
    \<longrightarrow> check_end_conditions rs st =
          Inr (end_condition_spec win lose max_turns (flag_on st) (turns_of st)) \<and>
        (max_turns = None \<longrightarrow>
           check_end_conditions rs st \<noteq> Inr (Some '' Max turns exceeded!''))) \<and>
   (dict_get rs ''END_CONDITIONS'' = Some (JObject ec) \<and>
    dict_get ec ''WIN_ALL_FLAGS'' = Some (JArray [])
    \<longrightarrow> check_end_conditions rs st = Inr (Some ''You won!''))"
proof (intro conjI impI)
  assume a: "dict_get rs ''END_CONDITIONS'' = Some (JObject ec) \<and>
    dict_get ec ''WIN_ALL_FLAGS'' = Some (JArray (map JString win)) \<and>
    dict_get ec ''LOSE_ANY_FLAGS'' = Some (JArray (map JString lose)) \<and>
    dict_get ec ''MAX_TURNS'' = map_option JInt max_turns \<and>
    GameState st"
  then have f: "flags_ok st" and t: "turns_ok st" by (simp_all add: GameState_def)
  show e: "check_end_conditions rs st =
          Inr (end_condition_spec win lose max_turns (flag_on st) (turns_of st))"
    using a
    by (simp add: check_end_conditions_def dict_get_default_def [of rs] dict_get_default_def [of ec]
          all_flags_GameState [OF f] any_flags_GameState [OF f] py_ge_turns [OF t]
          end_condition_spec_def split: option.splits)
  assume "max_turns = None"
  then show "check_end_conditions rs st \<noteq> Inr (Some '' Max turns exceeded!'')"
    unfolding e by (simp add: end_condition_spec_def)
next
  assume "dict_get rs ''END_CONDITIONS'' = Some (JObject ec) \<and>
    dict_get ec ''WIN_ALL_FLAGS'' = Some (JArray [])"
  then show "check_end_conditions rs st = Inr (Some ''You won!'')"
    by (simp add: check_end_conditions_def dict_get_default_def)
qed

theorem end_conditions_in_order_witness:
  "GameState [(''flags'', JObject [(''hp_zero'', JBool True)]), (''turns'', JInt 7)] \<and>
   check_end_conditions
     [(''END_CONDITIONS'', JObject [(''WIN_ALL_FLAGS'', JArray (map JString [''crown''])),
        (''LOSE_ANY_FLAGS'', JArray (map JString [''hp_zero''])), (''MAX_TURNS'', JInt 3)])]
     [(''flags'', JObject [(''hp_zero'', JBool True)]), (''turns'', JInt 7)]
     = Inr (Some '' You lost!'') \<and>
   check_end_conditions
     [(''END_CONDITIONS'', JObject [(''WIN_ALL_FLAGS'', JArray (map JString [''crown''])),
        (''LOSE_ANY_FLAGS'', JArray (map JString [''dead'']))])]
     [(''flags'', JObject [(''hp_zero'', JBool True)]), (''turns'', JInt 7)]
     \<noteq> Inr (Some '' Max turns exceeded!'') \<and>
   check_end_conditions
     [(''END_CONDITIONS'', JObject [(''WIN_ALL_FLAGS'', JArray []),
        (''LOSE_ANY_FLAGS'', JArray (map JString [''hp_zero''])), (''MAX_TURNS'', JInt 3)])]
     [(''flags'', JObject [(''hp_zero'', JBool True)]), (''turns'', JInt 7)]
     = Inr (Some ''You won!'')"
proof -
  let ?st = "[(''flags'', JObject [(''hp_zero'', JBool True)]), (''turns'', JInt 7)]"
  let ?ec1 = "[(''WIN_ALL_FLAGS'', JArray (map JString [''crown''])),
        (''LOSE_ANY_FLAGS'', JArray (map JString [''hp_zero''])), (''MAX_TURNS'', JInt 3)]"
  let ?ec2 = "[(''WIN_ALL_FLAGS'', JArray (map JString [''crown''])),
        (''LOSE_ANY_FLAGS'', JArray (map JString [''dead'']))]"
  let ?ec3 = "[(''WIN_ALL_FLAGS'', JArray []),
        (''LOSE_ANY_FLAGS'', JArray (map JString [''hp_zero''])), (''MAX_TURNS'', JInt 3)]"
  have g: "GameState ?st"
    by (simp add: ok_defs dict_get_def is_bool_def)
  have v: "end_condition_spec [''crown''] [''hp_zero''] (Some 3) (flag_on ?st) (turns_of ?st)
             = Some '' You lost!''"
    by (simp add: end_condition_spec_def flag_on_def flags_of_def dict_get_def)
  have h1: "dict_get [(''END_CONDITIONS'', JObject ?ec1)] ''END_CONDITIONS'' = Some (JObject ?ec1) \<and>
    dict_get ?ec1 ''WIN_ALL_FLAGS'' = Some (JArray (map JString [''crown''])) \<and>
    dict_get ?ec1 ''LOSE_ANY_FLAGS'' = Some (JArray (map JString [''hp_zero''])) \<and>
    dict_get ?ec1 ''MAX_TURNS'' = map_option JInt (Some 3)"
    by (simp add: dict_get_def)
  have h2: "dict_get [(''END_CONDITIONS'', JObject ?ec2)] ''END_CONDITIONS'' = Some (JObject ?ec2) \<and>
    dict_get ?ec2 ''WIN_ALL_FLAGS'' = Some (JArray (map JString [''crown''])) \<and>
    dict_get ?ec2 ''LOSE_ANY_FLAGS'' = Some (JArray (map JString [''dead''])) \<and>
    dict_get ?ec2 ''MAX_TURNS'' = map_option JInt None"
    by (simp add: dict_get_def)
  have h3: "dict_get [(''END_CONDITIONS'', JObject ?ec3)] ''END_CONDITIONS'' = Some (JObject ?ec3) \<and>
    dict_get ?ec3 ''WIN_ALL_FLAGS'' = Some (JArray [])"
    by (simp add: dict_get_def)
  have c1: "check_end_conditions [(''END_CONDITIONS'', JObject ?ec1)] ?st = Inr (Some '' You lost!'')"
    using end_conditions_in_order
      [of "[(''END_CONDITIONS'', JObject ?ec1)]" ?ec1 "[''crown'']" "[''hp_zero'']" "Some 3" ?st]
      h1 g v by simp
  have c2: "check_end_conditions [(''END_CONDITIONS'', JObject ?ec2)] ?st
              \<noteq> Inr (Some '' Max turns exceeded!'')"
    using end_conditions_in_order
      [of "[(''END_CONDITIONS'', JObject ?ec2)]" ?ec2 "[''crown'']" "[''dead'']" None ?st]
      h2 g by blast
  have c3: "check_end_conditions [(''END_CONDITIONS'', JObject ?ec3)] ?st = Inr (Some ''You won!'')"
    using end_conditions_in_order
      [of "[(''END_CONDITIONS'', JObject ?ec3)]" ?ec3 "[]" "[]" None ?st] h3 by blast
  from g c1 c2 c3 show ?thesis by blast
qed

section \<open>Properties of the decoder and of the response parser\<close>


lemma skip_ws_suffix: "suffix (skip_ws s) s"
  by (simp add: skip_ws_def suffix_dropWhile)

lemma skip_ws_length: "length (skip_ws s) \<le> length s"
  by (simp add: skip_ws_def length_dropWhile_le)

lemma suffix_skip_ws_Cons: "skip_ws s = d # r \<Longrightarrow> suffix r s"
  using skip_ws_suffix [of s] by (auto dest: suffix_ConsD)

lemma cons_str_Inr:
  "cons_str c res = Inr (t, r) \<Longrightarrow> \<exists>t'. res = Inr (t', r) \<and> t = c # t'"
  by (auto simp: cons_str_def split: sum.splits)

lemma cons_str_Inl: "cons_str c res = Inl e \<Longrightarrow> res = Inl e"
  by (auto simp: cons_str_def split: sum.splits)

lemma scanstring_length: "scanstring s = Inr (t, r) \<Longrightarrow> length r < length s"
proof (induction s arbitrary: t r rule: scanstring.induct)
  case 1
  then show ?case by simp
next
  case (2 c cs)
  show ?case
  proof (cases "c = CHR ''\"''")
    case True
    with "2.prems" show ?thesis by simp
  next
    case q: False
    show ?thesis
    proof (cases "c = CHR 0x5C")
      case True
      with q "2.prems" obtain e r0 where cs: "cs = e # r0"
        by (cases cs) auto
      show ?thesis
      proof (cases "e = CHR ''u''")
        case u: True
        with True q cs "2.prems" obtain n r' where h: "hex4 r0 = Some (n, r')" and n: "n < 256"
          and c: "cons_str (char_of n) (scanstring (drop 4 r0)) = Inr (t, r)"
          by (auto split: option.splits if_splits)
        from cons_str_Inr [OF c] obtain t' where "scanstring (drop 4 r0) = Inr (t', r)" by blast
        from "2.IH"(1) [OF q True cs u h refl n this]
        show ?thesis using cs by simp
      next
        case nu: False
        with True q cs "2.prems" obtain ch where h: "unescape e = Some ch"
          and c: "cons_str ch (scanstring r0) = Inr (t, r)"
          by (auto split: option.splits)
        from cons_str_Inr [OF c] obtain t' where "scanstring r0 = Inr (t', r)" by blast
        from "2.IH"(2) [OF q True cs nu h this]
        show ?thesis using cs by simp
      qed
    next
      case False
      with q "2.prems" have c: "cons_str c (scanstring cs) = Inr (t, r)" and nc: "\<not> (of_char c :: nat) < 32"
        by (auto split: if_splits)
      from cons_str_Inr [OF c] obtain t' where "scanstring cs = Inr (t', r)" by blast
      from "2.IH"(3) [OF q False nc this] show ?thesis by simp
    qed
  qed
qed

lemma scanstring_suffix: "scanstring s = Inr (t, r) \<Longrightarrow> suffix r s"
proof (induction s arbitrary: t r rule: scanstring.induct)
  case 1
  then show ?case by simp
next
  case (2 c cs)
  show ?case
  proof (cases "c = CHR ''\"''")
    case True
    with "2.prems" show ?thesis by (simp add: suffix_ConsI)
  next
    case q: False
    show ?thesis
    proof (cases "c = CHR 0x5C")
      case True
      with q "2.prems" obtain x r0 where cs: "cs = x # r0"
        by (cases cs) auto
      show ?thesis
      proof (cases "x = CHR ''u''")
        case u: True
        with True q cs "2.prems" obtain n r' where h: "hex4 r0 = Some (n, r')" and n: "n < 256"
          and c: "cons_str (char_of n) (scanstring (drop 4 r0)) = Inr (t, r)"
          by (auto split: option.splits if_splits)
        from cons_str_Inr [OF c] obtain t' where "scanstring (drop 4 r0) = Inr (t', r)" by blast
        from "2.IH"(1) [OF q True cs u h refl n this] have "suffix r (drop 4 r0)" .
        then have "suffix r r0" using suffix_drop [of 4 r0] by (rule suffix_order.trans)
        then show ?thesis using cs by (simp add: suffix_ConsI)
      next
        case nu: False
        with True q cs "2.prems" obtain ch where h: "unescape x = Some ch"
          and c: "cons_str ch (scanstring r0) = Inr (t, r)"
          by (auto split: option.splits)
        from cons_str_Inr [OF c] obtain t' where "scanstring r0 = Inr (t', r)" by blast
        from "2.IH"(2) [OF q True cs nu h this]
        show ?thesis using cs by (simp add: suffix_ConsI)
      qed
    next
      case False
      with q "2.prems" have c: "cons_str c (scanstring cs) = Inr (t, r)" and nc: "\<not> (of_char c :: nat) < 32"
        by (auto split: if_splits)
      from cons_str_Inr [OF c] obtain t' where "scanstring cs = Inr (t', r)" by blast
      from "2.IH"(3) [OF q False nc this] show ?thesis by (simp add: suffix_ConsI)
    qed
  qed
qed

lemma scanstring_error:
  "scanstring s = Inl e \<Longrightarrow> e = JSONDecodeError \<or> (e = Unmodelled \<and> CHR 0x5C \<in> set s)"
proof (induction s rule: scanstring.induct)
  case 1
  then show ?case by simp
next
  case (2 c cs)
  show ?case
  proof (cases "c = CHR ''\"''")
    case True
    with "2.prems" show ?thesis by simp
  next
    case q: False
    show ?thesis
    proof (cases "c = CHR 0x5C")
      case True
      show ?thesis
      proof (cases cs)
        case Nil
        with True q "2.prems" show ?thesis by simp
      next
        case (Cons x r0)
        show ?thesis
        proof (cases "x = CHR ''u''")
          case u: True
          show ?thesis
          proof (cases "hex4 r0")
            case None
            with u True q Cons "2.prems" show ?thesis by simp
          next
            case (Some p)
            obtain n r' where p: "p = (n, r')" by (cases p)
            show ?thesis
            proof (cases "n < 256")
              case n: True
              with Some p u True q Cons "2.prems"
              have "cons_str (char_of n) (scanstring (drop 4 r0)) = Inl e" by simp
              then have "scanstring (drop 4 r0) = Inl e" by (rule cons_str_Inl)
              from "2.IH"(1) [OF q True Cons u Some [unfolded p] refl n this] show ?thesis
                using True by auto
            next
              case False
              with Some p u True q Cons "2.prems" show ?thesis by simp
            qed
          qed
        next
          case nu: False
          show ?thesis
          proof (cases "unescape x")
            case None
            with nu True q Cons "2.prems" show ?thesis by simp
          next
            case (Some ch)
            with nu True q Cons "2.prems" have "cons_str ch (scanstring r0) = Inl e" by simp
            then have "scanstring r0 = Inl e" by (rule cons_str_Inl)
            from "2.IH"(2) [OF q True Cons nu Some this] show ?thesis
              using True by auto
          qed
        qed
      qed
    next
      case False
      show ?thesis
      proof (cases "(of_char c :: nat) < 32")
        case True
        with False q "2.prems" show ?thesis by simp
      next
        case nc: False
        with False q "2.prems" have "cons_str c (scanstring cs) = Inl e" by simp
        then have "scanstring cs = Inl e" by (rule cons_str_Inl)
        from "2.IH"(3) [OF q False nc this] show ?thesis by auto
      qed
    qed
  qed
qed

lemma match_number_rest:
  "match_number s = Some (ip, fr, ex, r) \<Longrightarrow> r = drop (length ip + length fr + length ex) s \<and> ip \<noteq> []"
  by (auto simp: match_number_def Let_def split: if_splits)

lemma match_number_length: "match_number s = Some (ip, fr, ex, r) \<Longrightarrow> length r \<le> length s"
  by (drule match_number_rest) simp

lemma scan_scalar_length: "scan_scalar s = Inr (v, r) \<Longrightarrow> length r \<le> length s"
  by (auto simp: scan_scalar_def split: if_splits option.splits dest: match_number_length)

lemma scan_scalar_error: "scan_scalar s = Inl e \<Longrightarrow> e = JSONDecodeError"
  by (auto simp: scan_scalar_def split: if_splits option.splits)

lemma scan_scalar_suffix: "scan_scalar s = Inr (v, r) \<Longrightarrow> suffix r s"
  by (auto simp: scan_scalar_def suffix_drop split: if_splits option.splits
           dest!: match_number_rest)

lemma parse_suffix:
  "parse_value f s = Inr (v, r) \<Longrightarrow> suffix r s"
  "parse_elems f acc s = Inr (v, r) \<Longrightarrow> suffix r s"
  "parse_members f accd s = Inr (v, r) \<Longrightarrow> suffix r s"
proof (induction f s and f acc s and f accd s arbitrary: v r and v r and v r
       rule: parse_value_parse_elems_parse_members.induct)
  case (1 s)
  then show ?case by simp
next
  case (2 n s)
  show ?case
  proof (cases s)
    case Nil
    with "2.prems" show ?thesis by simp
  next
    case (Cons c cs)
    consider (str) "c = CHR ''\"''" | (obj) "c \<noteq> CHR ''\"''" "c = CHR ''{''"
      | (arr) "c \<noteq> CHR ''\"''" "c \<noteq> CHR ''{''" "c = CHR ''[''"
      | (sc) "c \<noteq> CHR ''\"''" "c \<noteq> CHR ''{''" "c \<noteq> CHR ''[''" by blast
    then show ?thesis
    proof cases
      case str
      with Cons "2.prems" obtain t where "scanstring cs = Inr (t, r)"
        by (auto split: sum.splits)
      from scanstring_suffix [OF this] Cons show ?thesis by (simp add: suffix_ConsI)
    next
      case obj
      show ?thesis
      proof (cases "skip_ws cs")
        case Nil
        with obj Cons "2.prems" show ?thesis by simp
      next
        case (Cons d r0)
        have l: "suffix r0 s"
          using suffix_skip_ws_Cons [OF Cons] \<open>s = c # cs\<close> by (simp add: suffix_ConsI)
        show ?thesis
        proof (cases "d = CHR ''}''")
          case True
          with obj Cons \<open>s = c # cs\<close> "2.prems" l show ?thesis by simp
        next
          case nb: False
          show ?thesis
          proof (cases "d = CHR ''\"''")
            case True
            with nb obj Cons \<open>s = c # cs\<close> "2.prems"
            have "parse_members n [] r0 = Inr (v, r)" by simp
            from "2.IH"(1) [OF \<open>s = c # cs\<close> obj(1) obj(2) Cons nb True this] l
            show ?thesis by (rule suffix_order.trans)
          next
            case False
            with nb obj Cons \<open>s = c # cs\<close> "2.prems" show ?thesis by simp
          qed
        qed
      qed
    next
      case arr
      show ?thesis
      proof (cases "skip_ws cs")
        case Nil
        with arr Cons "2.prems" show ?thesis by simp
      next
        case (Cons d r0)
        have l: "suffix (d # r0) s"
          using skip_ws_suffix [of cs] Cons \<open>s = c # cs\<close> by (simp add: suffix_ConsI)
        show ?thesis
        proof (cases "d = CHR '']''")
          case True
          with arr Cons \<open>s = c # cs\<close> "2.prems" suffix_ConsD [OF l] show ?thesis by simp
        next
          case nb: False
          with arr Cons \<open>s = c # cs\<close> "2.prems"
          have "parse_elems n [] (d # r0) = Inr (v, r)" by simp
          from "2.IH"(2) [OF \<open>s = c # cs\<close> arr(1) arr(2) arr(3) Cons nb this] l
          show ?thesis by (rule suffix_order.trans)
        qed
      qed
    next
      case sc
      with Cons "2.prems" have "scan_scalar s = Inr (v, r)" by simp
      then show ?thesis by (rule scan_scalar_suffix)
    qed
  qed
next
  case (3 acc s)
  then show ?case by simp
next
  case (4 n acc s)
  from "4.prems" obtain v1 r1 where p: "parse_value n s = Inr (v1, r1)"
    by (auto split: sum.splits)
  from "4.IH"(1) [OF p] have l1: "suffix r1 s" .
  show ?case
  proof (cases "skip_ws r1")
    case Nil
    with p "4.prems" show ?thesis by simp
  next
    case (Cons d r')
    have l2: "suffix r' s"
      using suffix_skip_ws_Cons [OF Cons] l1 by (rule suffix_order.trans)
    show ?thesis
    proof (cases "d = CHR '']''")
      case True
      with p Cons "4.prems" l2 show ?thesis by simp
    next
      case nb: False
      show ?thesis
      proof (cases "d = CHR '',''")
        case True
        with nb p Cons "4.prems"
        have "parse_elems n (acc @ [v1]) (skip_ws r') = Inr (v, r)" by simp
        from "4.IH"(2) [OF p refl Cons nb True this] have "suffix r (skip_ws r')" .
        then have "suffix r r'" using skip_ws_suffix by (rule suffix_order.trans)
        then show ?thesis using l2 by (rule suffix_order.trans)
      next
        case False
        with nb p Cons "4.prems" show ?thesis by simp
      qed
    qed
  qed
next
  case (5 acc s)
  then show ?case by simp
next
  case (6 n acc s)
  from "6.prems" obtain k r0 where sc: "scanstring s = Inr (k, r0)"
    by (auto split: sum.splits)
  from scanstring_suffix [OF sc] have l0: "suffix r0 s" .
  show ?case
  proof (cases "skip_ws r0")
    case Nil
    with sc "6.prems" show ?thesis by simp
  next
    case (Cons d r1)
    have l1: "suffix r1 s"
      using suffix_skip_ws_Cons [OF Cons] l0 by (rule suffix_order.trans)
    show ?thesis
    proof (cases "d = CHR '':''")
      case False
      with sc Cons "6.prems" show ?thesis by simp
    next
      case col: True
      then have ncol: "\<not> d \<noteq> CHR '':''" by simp
      from col sc Cons "6.prems" obtain v2 r2 where
        p: "parse_value n (skip_ws r1) = Inr (v2, r2)"
        by (auto split: sum.splits)
      from "6.IH"(1) [OF sc refl Cons ncol p] have "suffix r2 (skip_ws r1)" .
      then have "suffix r2 r1" using skip_ws_suffix by (rule suffix_order.trans)
      then have l2: "suffix r2 s" using l1 by (rule suffix_order.trans)
      show ?thesis
      proof (cases "skip_ws r2")
        case Nil
        with col sc Cons p "6.prems" show ?thesis by simp
      next
        case c3: (Cons d' r3)
        have l3: "suffix r3 s"
          using suffix_skip_ws_Cons [OF c3] l2 by (rule suffix_order.trans)
        show ?thesis
        proof (cases "d' = CHR ''}''")
          case True
          with col sc Cons p c3 "6.prems" l3 show ?thesis by simp
        next
          case nb: False
          show ?thesis
          proof (cases "d' = CHR '',''")
            case False
            with nb col sc Cons p c3 "6.prems" show ?thesis by simp
          next
            case com: True
            show ?thesis
            proof (cases "skip_ws r3")
              case Nil
              with com nb col sc Cons p c3 "6.prems" show ?thesis by simp
            next
              case c4: (Cons q r4)
              have l4: "suffix r4 s"
                using suffix_skip_ws_Cons [OF c4] l3 by (rule suffix_order.trans)
              show ?thesis
              proof (cases "q = CHR ''\"''")
                case False
                with com nb col sc Cons p c3 c4 "6.prems" show ?thesis by simp
              next
                case True
                with com nb col sc Cons p c3 c4 "6.prems"
                have "parse_members n (dict_set acc k v2) r4 = Inr (v, r)" by simp
                from "6.IH"(2) [OF sc refl Cons ncol p refl c3 nb com c4 True this] l4
                show ?thesis by (rule suffix_order.trans)
              qed
            qed
          qed
        qed
      qed
    qed
  qed
qed

lemma parse_length:
  "parse_value f s = Inr (v, r) \<Longrightarrow> length r \<le> length s"
  "parse_elems f acc s = Inr (v, r) \<Longrightarrow> length r \<le> length s"
  "parse_members f accd s = Inr (v, r) \<Longrightarrow> length r \<le> length s"
  by (blast dest: parse_suffix suffix_length_le)+

lemma err_ok_mono: "err_ok e r a \<Longrightarrow> suffix r s \<Longrightarrow> (a \<Longrightarrow> b) \<Longrightarrow> err_ok e s b"
  by (auto simp: err_ok_def dest: set_mono_suffix)

lemma err_ok_JSON [simp]: "err_ok JSONDecodeError s b"
  by (simp add: err_ok_def)

lemma parse_error:
  "parse_value f s = Inl e \<Longrightarrow> err_ok e s (f < 2 * length s + 1)"
  "parse_elems f acc s = Inl e \<Longrightarrow> err_ok e s (f < 2 * length s + 2)"
  "parse_members f accd s = Inl e \<Longrightarrow> err_ok e s (f < 2 * length s + 2)"
proof (induction f s and f acc s and f accd s arbitrary: e and e and e
       rule: parse_value_parse_elems_parse_members.induct)
  case (1 s)
  then show ?case by (simp add: err_ok_def)
next
  case (2 n s)
  show ?case
  proof (cases s)
    case Nil
    with "2.prems" show ?thesis by simp
  next
    case (Cons c cs)
    consider (str) "c = CHR ''\"''" | (obj) "c \<noteq> CHR ''\"''" "c = CHR ''{''"
      | (arr) "c \<noteq> CHR ''\"''" "c \<noteq> CHR ''{''" "c = CHR ''[''"
      | (sc) "c \<noteq> CHR ''\"''" "c \<noteq> CHR ''{''" "c \<noteq> CHR ''[''" by blast
    then show ?thesis
    proof cases
      case str
      with Cons "2.prems" have "scanstring cs = Inl e"
        by (auto split: sum.splits)
      from scanstring_error [OF this] Cons show ?thesis by (auto simp: err_ok_def)
    next
      case obj
      show ?thesis
      proof (cases "skip_ws cs")
        case Nil
        with obj Cons "2.prems" show ?thesis by simp
      next
        case (Cons d r0)
        have l: "length r0 < length cs"
          using skip_ws_length [of cs] Cons by simp
        have sf: "suffix r0 s"
          using suffix_skip_ws_Cons [OF Cons] \<open>s = c # cs\<close> by (simp add: suffix_ConsI)
        show ?thesis
        proof (cases "d = CHR ''}''")
          case True
          with obj Cons \<open>s = c # cs\<close> "2.prems" show ?thesis by simp
        next
          case nb: False
          show ?thesis
          proof (cases "d = CHR ''\"''")
            case True
            with nb obj Cons \<open>s = c # cs\<close> "2.prems"
            have "parse_members n [] r0 = Inl e" by simp
            from "2.IH"(1) [OF \<open>s = c # cs\<close> obj(1) obj(2) Cons nb True this] sf
            show ?thesis by (rule err_ok_mono) (use l \<open>s = c # cs\<close> in simp)
          next
            case False
            with nb obj Cons \<open>s = c # cs\<close> "2.prems" show ?thesis by simp
          qed
        qed
      qed
    next
      case arr
      show ?thesis
      proof (cases "skip_ws cs")
        case Nil
        with arr Cons "2.prems" show ?thesis by simp
      next
        case (Cons d r0)
        have l: "length (d # r0) \<le> length cs"
          using skip_ws_length [of cs] Cons by simp
        have sf: "suffix (d # r0) s"
          using skip_ws_suffix [of cs] Cons \<open>s = c # cs\<close> by (simp add: suffix_ConsI)
        show ?thesis
        proof (cases "d = CHR '']''")
          case True
          with arr Cons \<open>s = c # cs\<close> "2.prems" show ?thesis by simp
        next
          case nb: False
          with arr Cons \<open>s = c # cs\<close> "2.prems"
          have "parse_elems n [] (d # r0) = Inl e" by simp
          from "2.IH"(2) [OF \<open>s = c # cs\<close> arr(1) arr(2) arr(3) Cons nb this] sf
          show ?thesis by (rule err_ok_mono) (use l \<open>s = c # cs\<close> in simp)
        qed
      qed
    next
      case sc
      with Cons "2.prems" have "scan_scalar s = Inl e" by simp
      then have "e = JSONDecodeError" by (rule scan_scalar_error)
      then show ?thesis by simp
    qed
  qed
next
  case (3 acc s)
  then show ?case by (simp add: err_ok_def)
next
  case (4 n acc s)
  show ?case
  proof (cases "parse_value n s")
    case (Inl e')
    with "4.prems" have "e' = e" by simp
    with "4.IH"(1) [OF Inl] show ?thesis by (auto simp: err_ok_def)
  next
    case (Inr p)
    obtain v1 r1 where p: "parse_value n s = Inr (v1, r1)" using Inr by (cases p) simp
    from parse_length(1) [OF p] have l1: "length r1 \<le> length s" .
    from parse_suffix(1) [OF p] have s1: "suffix r1 s" .
    show ?thesis
    proof (cases "skip_ws r1")
      case Nil
      with p "4.prems" show ?thesis by simp
    next
      case (Cons d r')
      have l2: "length r' < length r1" using skip_ws_length [of r1] Cons by simp
      have "suffix r' s"
        using suffix_skip_ws_Cons [OF Cons] s1 by (rule suffix_order.trans)
      with skip_ws_suffix have s2: "suffix (skip_ws r') s" by (rule suffix_order.trans)
      show ?thesis
      proof (cases "d = CHR '']''")
        case True
        with p Cons "4.prems" show ?thesis by simp
      next
        case nb: False
        show ?thesis
        proof (cases "d = CHR '',''")
          case True
          with nb p Cons "4.prems"
          have "parse_elems n (acc @ [v1]) (skip_ws r') = Inl e" by simp
          from "4.IH"(2) [OF p refl Cons nb True this] s2
          show ?thesis
            by (rule err_ok_mono) (use skip_ws_length [of r'] l1 l2 in simp)
        next
          case False
          with nb p Cons "4.prems" show ?thesis by simp
        qed
      qed
    qed
  qed
next
  case (5 acc s)
  then show ?case by (simp add: err_ok_def)
next
  case (6 n acc s)
  show ?case
  proof (cases "scanstring s")
    case (Inl e')
    with "6.prems" have "e' = e" by simp
    with scanstring_error [OF Inl] show ?thesis by (auto simp: err_ok_def)
  next
    case (Inr p0)
    obtain k r0 where sc: "scanstring s = Inr (k, r0)" using Inr by (cases p0) simp
    from scanstring_length [OF sc] have l0: "length r0 < length s" .
    from scanstring_suffix [OF sc] have s0: "suffix r0 s" .
    show ?thesis
    proof (cases "skip_ws r0")
      case Nil
      with sc "6.prems" show ?thesis by simp
    next
      case (Cons d r1)
      have l1: "length r1 < length r0" using skip_ws_length [of r0] Cons by simp
      have s1: "suffix r1 s"
        using suffix_skip_ws_Cons [OF Cons] s0 by (rule suffix_order.trans)
      show ?thesis
      proof (cases "d = CHR '':''")
        case False
        with sc Cons "6.prems" show ?thesis by simp
      next
        case col: True
        then have ncol: "\<not> d \<noteq> CHR '':''" by simp
        show ?thesis
        proof (cases "parse_value n (skip_ws r1)")
          case (Inl e')
          with col sc Cons "6.prems" have "e' = e" by simp
          with "6.IH"(1) [OF sc refl Cons ncol Inl]
          have "err_ok e (skip_ws r1) (n < 2 * length (skip_ws r1) + 1)" by simp
          moreover have "suffix (skip_ws r1) s"
            using skip_ws_suffix s1 by (rule suffix_order.trans)
          ultimately show ?thesis
            by (rule err_ok_mono) (use skip_ws_length [of r1] l0 l1 in simp)
        next
          case (Inr p2)
          obtain v2 r2 where p: "parse_value n (skip_ws r1) = Inr (v2, r2)"
            using Inr by (cases p2) simp
          from parse_length(1) [OF p] skip_ws_length [of r1]
          have l2: "length r2 \<le> length r1" by simp
          from parse_suffix(1) [OF p] have "suffix r2 (skip_ws r1)" .
          then have "suffix r2 r1" using skip_ws_suffix by (rule suffix_order.trans)
          then have s2: "suffix r2 s" using s1 by (rule suffix_order.trans)
          show ?thesis
          proof (cases "skip_ws r2")
            case Nil
            with col sc Cons p "6.prems" show ?thesis by simp
          next
            case c3: (Cons d' r3)
            have l3: "length r3 < length r2" using skip_ws_length [of r2] c3 by simp
            have s3: "suffix r3 s"
              using suffix_skip_ws_Cons [OF c3] s2 by (rule suffix_order.trans)
            show ?thesis
            proof (cases "d' = CHR ''}''")
              case True
              with col sc Cons p c3 "6.prems" show ?thesis by simp
            next
              case nb: False
              show ?thesis
              proof (cases "d' = CHR '',''")
                case False
                with nb col sc Cons p c3 "6.prems" show ?thesis by simp
              next
                case com: True
                show ?thesis
                proof (cases "skip_ws r3")
                  case Nil
                  with com nb col sc Cons p c3 "6.prems" show ?thesis by simp
                next
                  case c4: (Cons q r4)
                  have l4: "length r4 < length r3" using skip_ws_length [of r3] c4 by simp
                  have s4: "suffix r4 s"
                    using suffix_skip_ws_Cons [OF c4] s3 by (rule suffix_order.trans)
                  show ?thesis
                  proof (cases "q = CHR ''\"''")
                    case False
                    with com nb col sc Cons p c3 c4 "6.prems" show ?thesis by simp
                  next
                    case True
                    with com nb col sc Cons p c3 c4 "6.prems"
                    have "parse_members n (dict_set acc k v2) r4 = Inl e" by simp
                    from "6.IH"(2) [OF sc refl Cons ncol p refl c3 nb com c4 True this] s4
                    show ?thesis
                      by (rule err_ok_mono) (use l0 l1 l2 l3 l4 in simp)
                  qed
                qed
              qed
            qed
          qed
        qed
      qed
    qed
  qed
qed

lemma json_loads_error:
  "json_loads inp = Inl e \<Longrightarrow> e = JSONDecodeError \<or> (e = Unmodelled \<and> CHR 0x5C \<in> set inp)"
proof -
  assume a: "json_loads inp = Inl e"
  show ?thesis
  proof (cases "parse_value (2 * length inp + 2) (skip_ws inp)")
    case (Inl e')
    with a have "e' = e" by (simp add: json_loads_def)
    with parse_error(1) [OF Inl] skip_ws_length [of inp] set_mono_suffix [OF skip_ws_suffix [of inp]]
    show ?thesis
      by (auto simp: err_ok_def)
  next
    case (Inr p)
    with a show ?thesis by (auto simp: json_loads_def split: prod.splits if_splits)
  qed
qed

lemma json_loads_fuel: "json_loads inp \<noteq> Inl OutOfFuel"
  using json_loads_error [of inp OutOfFuel] by auto

lemma gm_shape_fallback: "gm_shape fallback"
  by (simp add: gm_shape_def fallback_def dict_get_def)

lemma safe_json_extract_whole: "json_loads inp = Inr v \<Longrightarrow> safe_json_extract inp = Inr v"
  by (simp add: safe_json_extract_def)

lemma find_char_nonneg: "find_char inp c \<noteq> - 1 \<longleftrightarrow> c \<in> set inp"
  by (simp add: find_char_def)

lemma rfind_char_plus1: "rfind_char inp c + 1 \<noteq> - 1"
proof -
  have "length (takeWhile (\<lambda>x. x \<noteq> c) (rev inp)) \<le> length inp"
    using length_takeWhile_le [of "\<lambda>x. x \<noteq> c" "rev inp"] by simp
  then show ?thesis by (simp add: rfind_char_def)
qed

lemma safe_json_extract_retry:
  assumes "json_loads inp = Inl JSONDecodeError"
  shows "safe_json_extract inp =
           (if CHR ''{'' \<in> set inp then
              (case json_loads (slice inp (find_char inp CHR ''{'') (rfind_char inp CHR ''}'' + 1)) of
                 Inr v \<Rightarrow> Inr v
               | Inl JSONDecodeError \<Rightarrow> Inr fallback
               | Inl e \<Rightarrow> Inl e)
            else Inr fallback)"
  using assms rfind_char_plus1 [of inp "CHR ''}''"]
  by (simp add: safe_json_extract_def Let_def find_char_nonneg)

lemma slice_set: "set (slice inp i j) \<subseteq> set inp"
  unfolding slice_def by (meson set_drop_subset set_take_subset subset_trans)

lemma safe_json_extract_error:
  assumes "safe_json_extract inp = Inl e"
  shows "e = Unmodelled \<and> CHR 0x5C \<in> set inp"
proof (cases "json_loads inp")
  case (Inr v)
  with assms show ?thesis by (simp add: safe_json_extract_def)
next
  case (Inl e1)
  show ?thesis
  proof (cases "e1 = JSONDecodeError")
    case False
    with Inl json_loads_error [OF Inl] have "e1 = Unmodelled" and b: "CHR 0x5C \<in> set inp"
      by simp_all
    with Inl assms show ?thesis by (simp add: safe_json_extract_def)
  next
    case True
    let ?sl = "slice inp (find_char inp CHR ''{'') (rfind_char inp CHR ''}'' + 1)"
    from True Inl have r: "json_loads inp = Inl JSONDecodeError" by simp
    show ?thesis
    proof (cases "json_loads ?sl")
      case (Inr v)
      with assms show ?thesis
        unfolding safe_json_extract_retry [OF r] by (simp split: if_splits)
    next
      case i2: (Inl e2)
      from json_loads_error [OF i2] slice_set
      consider "e2 = JSONDecodeError" | "e2 = Unmodelled" "CHR 0x5C \<in> set inp" by blast
      then show ?thesis
      proof cases
        case 1
        with i2 assms show ?thesis
          unfolding safe_json_extract_retry [OF r] by (simp split: if_splits)
      next
        case 2
        with i2 assms show ?thesis
          unfolding safe_json_extract_retry [OF r] by (simp split: if_splits)
      qed
    qed
  qed
qed

lemma takeWhile_neq_first:
  "c \<notin> set pre \<Longrightarrow> takeWhile (\<lambda>x. x \<noteq> c) (pre @ c # rest) = pre"
  by (induction pre) auto

lemma slice_braces:
  assumes "CHR ''{'' \<notin> set pre" and "CHR ''}'' \<notin> set post"
  shows "slice (pre @ CHR ''{'' # mid @ CHR ''}'' # post)
           (find_char (pre @ CHR ''{'' # mid @ CHR ''}'' # post) CHR ''{'')
           (rfind_char (pre @ CHR ''{'' # mid @ CHR ''}'' # post) CHR ''}'' + 1)
         = CHR ''{'' # mid @ ''}''"
proof -
  let ?t = "pre @ CHR ''{'' # mid @ CHR ''}'' # post"
  have f: "find_char ?t CHR ''{'' = int (length pre)"
    using assms(1) by (simp add: find_char_def takeWhile_neq_first)
  have "rev ?t = rev post @ CHR ''}'' # rev mid @ CHR ''{'' # rev pre" by simp
  then have "takeWhile (\<lambda>x. x \<noteq> CHR ''}'') (rev ?t) = rev post"
    using assms(2) takeWhile_neq_first [of "CHR ''}''" "rev post"] by simp
  then have r: "rfind_char ?t CHR ''}'' + 1 = int (length pre + 1 + length mid + 1)"
    by (simp add: rfind_char_def)
  have tk: "take (length pre + 1 + length mid + 1) ?t = pre @ CHR ''{'' # mid @ ''}''"
    by simp
  have "slice ?t (int (length pre)) (int (length pre + 1 + length mid + 1))
          = drop (length pre) (take (length pre + 1 + length mid + 1) ?t)"
    unfolding slice_def by (simp only: nat_int)
  also have "\<dots> = CHR ''{'' # mid @ ''}''"
    unfolding tk by simp
  finally show ?thesis unfolding f r .
qed

text \<open>
  The text \<^verbatim>\<open>{"narration":"Hi"}\<close> decodes to an object without \<^verbatim>\<open>state_change\<close>.
  The response parser returns it as it is: the result has not the promised shape and
  is not the fallback object.
\<close>
theorem parser_shape_counterexample:
  "safe_json_extract ''{\"narration\":\"Hi\"}'' = Inr (JObject [(''narration'', JString ''Hi'')]) \<and>
   \<not> gm_shape (JObject [(''narration'', JString ''Hi'')]) \<and>
   JObject [(''narration'', JString ''Hi'')] \<noteq> fallback"
proof -
  have "safe_json_extract ''{\"narration\":\"Hi\"}'' = Inr (JObject [(''narration'', JString ''Hi'')])"
    by code_simp
  moreover have "\<not> gm_shape (JObject [(''narration'', JString ''Hi'')])"
    by (simp add: gm_shape_def)
  moreover have "JObject [(''narration'', JString ''Hi'')] \<noteq> fallback"
    by (simp add: fallback_def)
  ultimately show ?thesis by blast
qed

text \<open>
  C1, as the code has it. The response parser makes no check of the shape. An object
  decoded from the whole text is returned unchanged; when the whole text does not
  decode, an object decoded from the first \<^verbatim>\<open>{\<close> to the last \<^verbatim>\<open>}\<close> is returned
  unchanged; when neither attempt decodes (or there is no \<^verbatim>\<open>{\<close>) the result is the
  fallback object, which has the promised shape. No decode error leaves the parser,
  and on a text without a backslash the parser always returns a value.
\<close>
theorem parser_decoded_or_fallback:
  "(json_loads inp = Inr (JObject d) \<longrightarrow> safe_json_extract inp = Inr (JObject d)) \<and>
   (json_loads inp = Inl JSONDecodeError \<and> CHR ''{'' \<in> set inp \<and>
    json_loads (slice inp (find_char inp CHR ''{'') (rfind_char inp CHR ''}'' + 1)) = Inr (JObject d)
      \<longrightarrow> safe_json_extract inp = Inr (JObject d)) \<and>
   (json_loads inp = Inl JSONDecodeError \<and>
    (CHR ''{'' \<notin> set inp \<or>
     json_loads (slice inp (find_char inp CHR ''{'') (rfind_char inp CHR ''}'' + 1))
       = Inl JSONDecodeError)
      \<longrightarrow> safe_json_extract inp = Inr fallback) \<and>
   gm_shape fallback \<and>
   safe_json_extract inp \<noteq> Inl JSONDecodeError \<and>
   (CHR 0x5C \<notin> set inp \<longrightarrow> (\<exists>v. safe_json_extract inp = Inr v))"
proof (intro conjI impI)
  assume "json_loads inp = Inr (JObject d)"
  then show "safe_json_extract inp = Inr (JObject d)" by (rule safe_json_extract_whole)
next
  assume "json_loads inp = Inl JSONDecodeError \<and> CHR ''{'' \<in> set inp \<and>
    json_loads (slice inp (find_char inp CHR ''{'') (rfind_char inp CHR ''}'' + 1)) = Inr (JObject d)"
  then show "safe_json_extract inp = Inr (JObject d)"
    by (simp add: safe_json_extract_retry)
next
  assume a: "json_loads inp = Inl JSONDecodeError \<and>
    (CHR ''{'' \<notin> set inp \<or>
     json_loads (slice inp (find_char inp CHR ''{'') (rfind_char inp CHR ''}'' + 1))
       = Inl JSONDecodeError)"
  then have "json_loads inp = Inl JSONDecodeError" by simp
  from safe_json_extract_retry [OF this] a show "safe_json_extract inp = Inr fallback"
    by auto
next
  show "gm_shape fallback" by (rule gm_shape_fallback)
next
  show "safe_json_extract inp \<noteq> Inl JSONDecodeError"
    using safe_json_extract_error [of inp JSONDecodeError] by auto
next
  assume "CHR 0x5C \<notin> set inp"
  with safe_json_extract_error [of inp] show "\<exists>v. safe_json_extract inp = Inr v"
    by (cases "safe_json_extract inp") auto
qed

theorem parser_decoded_or_fallback_witness:
  "json_loads ''{}'' = Inr (JObject []) \<and> safe_json_extract ''{}'' = Inr (JObject []) \<and>
   json_loads ''ok {} then'' = Inl JSONDecodeError \<and>
   safe_json_extract ''ok {} then'' = Inr (JObject []) \<and>
   json_loads ''{oops}'' = Inl JSONDecodeError \<and> safe_json_extract ''{oops}'' = Inr fallback \<and>
   CHR 0x5C \<notin> set ''[1, 2'' \<and> (\<exists>v. safe_json_extract ''[1, 2'' = Inr v)"
proof -
  have a: "json_loads ''{}'' = Inr (JObject [])" by code_simp
  have b: "json_loads ''ok {} then'' = Inl JSONDecodeError \<and> CHR ''{'' \<in> set ''ok {} then'' \<and>
    json_loads (slice ''ok {} then'' (find_char ''ok {} then'' CHR ''{'')
       (rfind_char ''ok {} then'' CHR ''}'' + 1)) = Inr (JObject [])"
    by code_simp
  have c: "json_loads ''{oops}'' = Inl JSONDecodeError \<and>
    (CHR ''{'' \<notin> set ''{oops}'' \<or>
     json_loads (slice ''{oops}'' (find_char ''{oops}'' CHR ''{'') (rfind_char ''{oops}'' CHR ''}'' + 1))
       = Inl JSONDecodeError)"
    by code_simp
  have d: "CHR 0x5C \<notin> set ''[1, 2''" by simp
  have 1: "safe_json_extract ''{}'' = Inr (JObject [])"
    using parser_decoded_or_fallback [of "''{}''" "[]"] a by blast
  have 2: "safe_json_extract ''ok {} then'' = Inr (JObject [])"
    using parser_decoded_or_fallback [of "''ok {} then''" "[]"] b by blast
  have 3: "safe_json_extract ''{oops}'' = Inr fallback"
    using parser_decoded_or_fallback [of "''{oops}''"] c by blast
  have 4: "\<exists>v. safe_json_extract ''[1, 2'' = Inr v"
    using parser_decoded_or_fallback [of "''[1, 2''"] d by blast
  from a b c d 1 2 3 4 show ?thesis by blast
qed

text \<open>
  C10. When the whole text does not decode and has a first \<^verbatim>\<open>{\<close> and, after it, a
  last \<^verbatim>\<open>}\<close>, the response parser decodes the text from that \<^verbatim>\<open>{\<close> to that \<^verbatim>\<open>}\<close>
  inclusive, and falls back when that fails. On the specification's first example
  it returns the embedded object, whose \<^verbatim>\<open>state_change\<close> moves every state of the
  data model to the location \<^verbatim>\<open>cave\<close>; on \<^verbatim>\<open>not json at all\<close> it returns the
  fallback object, whose \<^verbatim>\<open>state_change\<close> is the empty list.
\<close>
theorem parser_recovers_embedded_object:
  "(json_loads inp = Inl JSONDecodeError \<and> inp = pre @ CHR ''{'' # mid @ CHR ''}'' # post \<and>
    CHR ''{'' \<notin> set pre \<and> CHR ''}'' \<notin> set post
      \<longrightarrow> safe_json_extract inp =
            (case json_loads (CHR ''{'' # mid @ ''}'') of
               Inr v \<Rightarrow> Inr v
             | Inl JSONDecodeError \<Rightarrow> Inr fallback
             | Inl e \<Rightarrow> Inl e)) \<and>
   safe_json_extract
     ''Sure! {\"narration\":\"You enter.\",\"state_change\":[\"move_to:cave\"]} Good luck.''
     = Inr (JObject [(''narration'', JString ''You enter.''),
                     (''state_change'', JArray [JString ''move_to:cave''])]) \<and>
   (GameState st \<longrightarrow>
      (\<exists>st'. apply_state_changes st
                (dict_get_default [(''narration'', JString ''You enter.''),
                                   (''state_change'', JArray [JString ''move_to:cave''])]
                   ''state_change'' (JArray [])) = Inr st' \<and>
             dict_get st' ''location'' = Some (JString ''cave''))) \<and>
   safe_json_extract ''not json at all'' = Inr fallback \<and>
   fallback = JObject [(''narration'', JString ''Invalid GM response.''), (''state_change'', JArray [])]"
proof (intro conjI impI)
  assume a: "json_loads inp = Inl JSONDecodeError \<and> inp = pre @ CHR ''{'' # mid @ CHR ''}'' # post \<and>
    CHR ''{'' \<notin> set pre \<and> CHR ''}'' \<notin> set post"
  then have l: "json_loads inp = Inl JSONDecodeError"
    and i: "inp = pre @ CHR ''{'' # mid @ CHR ''}'' # post" by blast+
  have b: "CHR ''{'' \<in> set inp" unfolding i by simp
  from a have p: "CHR ''{'' \<notin> set pre" "CHR ''}'' \<notin> set post" by blast+
  have "slice inp (find_char inp CHR ''{'') (rfind_char inp CHR ''}'' + 1)
                 = CHR ''{'' # mid @ ''}''"
    unfolding i by (rule slice_braces [OF p])
  with safe_json_extract_retry [OF l] b
  show "safe_json_extract inp =
            (case json_loads (CHR ''{'' # mid @ ''}'') of
               Inr v \<Rightarrow> Inr v
             | Inl JSONDecodeError \<Rightarrow> Inr fallback
             | Inl e \<Rightarrow> Inl e)" by simp
next
  show "safe_json_extract
     ''Sure! {\"narration\":\"You enter.\",\"state_change\":[\"move_to:cave\"]} Good luck.''
     = Inr (JObject [(''narration'', JString ''You enter.''),
                     (''state_change'', JArray [JString ''move_to:cave''])])"
    by code_simp
next
  assume g: "GameState st"
  have d: "dict_get_default [(''narration'', JString ''You enter.''),
                                   (''state_change'', JArray [JString ''move_to:cave''])]
                   ''state_change'' (JArray []) = atoms [''move_to:'' @ ''cave'']"
    by (simp add: dict_get_default_def dict_get_def atoms_def)
  have s: "strip ''cave'' = ''cave''" by code_simp
  let ?s1 = "dict_set st ''location'' (JString ''cave'')"
  have g1: "GameState ?s1" using g by (rule GameState_set_location)
  have "apply_state_changes st (atoms [''move_to:'' @ ''cave''])
          = Inr (dict_set ?s1 ''turns'' (JInt (turns_of ?s1 + 1)))"
    by (simp only: apply_state_changes_single apply_atom_move_to s sum.case
          bump_turns_GameState [OF g1])
  then show "\<exists>st'. apply_state_changes st
                (dict_get_default [(''narration'', JString ''You enter.''),
                                   (''state_change'', JArray [JString ''move_to:cave''])]
                   ''state_change'' (JArray [])) = Inr st' \<and>
             dict_get st' ''location'' = Some (JString ''cave'')"
    unfolding d by (simp add: dict_get_set)
next
  show "safe_json_extract ''not json at all'' = Inr fallback" by code_simp
next
  show "fallback = JObject [(''narration'', JString ''Invalid GM response.''), (''state_change'', JArray [])]"
    by (rule fallback_def)
qed

theorem parser_recovers_embedded_object_witness:
  "json_loads ''ok {} then'' = Inl JSONDecodeError \<and>
   ''ok {} then'' = ''ok '' @ CHR ''{'' # [] @ CHR ''}'' # '' then'' \<and>
   safe_json_extract ''ok {} then'' = Inr (JObject []) \<and>
   GameState [] \<and>
   (\<exists>st'. apply_state_changes [] (JArray [JString ''move_to:cave'']) = Inr st' \<and>
          dict_get st' ''location'' = Some (JString ''cave''))"
proof -
  have a: "json_loads ''ok {} then'' = Inl JSONDecodeError \<and>
     ''ok {} then'' = ''ok '' @ CHR ''{'' # [] @ CHR ''}'' # '' then'' \<and>
     CHR ''{'' \<notin> set ''ok '' \<and> CHR ''}'' \<notin> set '' then''"
    by code_simp
  have b: "json_loads (CHR ''{'' # [] @ ''}'') = Inr (JObject [])" by code_simp
  have g: "GameState []" by (simp add: ok_defs dict_get_def)
  have d: "dict_get_default [(''narration'', JString ''You enter.''),
                                   (''state_change'', JArray [JString ''move_to:cave''])]
                   ''state_change'' (JArray []) = JArray [JString ''move_to:cave'']"
    by (simp add: dict_get_default_def dict_get_def)
  note t = parser_recovers_embedded_object [of "''ok {} then''" "''ok ''" "[]" "'' then''" "[]"]
  from t a have "safe_json_extract ''ok {} then'' =
            (case json_loads (CHR ''{'' # [] @ ''}'') of
               Inr v \<Rightarrow> Inr v
             | Inl JSONDecodeError \<Rightarrow> Inr fallback
             | Inl e \<Rightarrow> Inl e)" by blast
  then have 1: "safe_json_extract ''ok {} then'' = Inr (JObject [])"
    unfolding b by simp
  from t g have "\<exists>st'. apply_state_changes []
                (dict_get_default [(''narration'', JString ''You enter.''),
                                   (''state_change'', JArray [JString ''move_to:cave''])]
                   ''state_change'' (JArray [])) = Inr st' \<and>
             dict_get st' ''location'' = Some (JString ''cave'')" by blast
  then have 2: "\<exists>st'. apply_state_changes [] (JArray [JString ''move_to:cave'']) = Inr st' \<and>
          dict_get st' ''location'' = Some (JString ''cave'')"
    unfolding d .
  from a 1 g 2 show ?thesis by blast
qed

section \<open>Properties of the session engine\<close>

lemma build_prompt_eq:
  "gm_prompt w = Some g \<Longrightarrow>
   build_prompt e w cmd = Inr (prompt_head e g @ ''PLAYER_COMMAND:'' @ cmd @ nl @ nl @ INSTRUCTIONS)"
  by (simp add: build_prompt_def prompt_head_def)

lemma sent_show_out [simp]: "sent (show_out x w) = sent w"
  by (simp add: show_out_def)

lemma gm_turn_sent:
  assumes "build_prompt e w cmd = Inr p"
  shows "sent (fst (gm_turn run cmd e w)) = sent w @ [p]"
  using assms
  by (simp add: gm_turn_def Let_def split: option.splits sum.splits json.splits bool.splits)

lemma handle_command_gm:
  "\<not> builtin (lower cmd0) \<Longrightarrow> handle_command run cmd0 e w = gm_turn run (lower cmd0) e w"
  by (simp add: handle_command_def builtin_def Let_def)

text \<open>
  The command \<^verbatim>\<open>Look Around\<close> is no built-in. The prompt that goes to the model has
  the line \<^verbatim>\<open>PLAYER_COMMAND:look around\<close>, and the string the player entered occurs
  nowhere in it.
\<close>
theorem command_not_verbatim_counterexample:
  "sent (fst (handle_command no_reply ''Look Around''
       \<lparr>rules = [], state = [], history = [], shared = []\<rparr>
       \<lparr>gm_prompt = Some ''GM'', save_file = None, transcript = [], shown = [], sent = []\<rparr>))
     = [''GM'' @ nl @ nl @ ''RULES_JSON:{}'' @ nl @ ''CURRENT_STATE:{}'' @ nl
          @ ''RECENT_HISTORY:[]'' @ nl @ ''PLAYER_COMMAND:look around'' @ nl @ nl @ INSTRUCTIONS] \<and>
   \<not> str_contains
       (''GM'' @ nl @ nl @ ''RULES_JSON:{}'' @ nl @ ''CURRENT_STATE:{}'' @ nl
          @ ''RECENT_HISTORY:[]'' @ nl @ ''PLAYER_COMMAND:look around'' @ nl @ nl @ INSTRUCTIONS)
       ''Look Around''"
  by code_simp

text \<open>
  C5, as the code has it. \<^verbatim>\<open>handle_command\<close> puts the command in lower case before
  anything else. For a command whose lower-case form is no built-in, one prompt goes
  to the model, whatever happens afterwards, and its \<^verbatim>\<open>PLAYER_COMMAND\<close> line holds
  exactly the lower-case form of the command; nothing else is done to the command.
\<close>
theorem command_forwarded_in_lower_case:
  assumes "\<not> builtin (lower cmd0)" and "gm_prompt w = Some g"
  shows "sent (fst (handle_command run cmd0 e w)) =
           sent w @ [prompt_head e g @ ''PLAYER_COMMAND:'' @ lower cmd0 @ nl @ nl @ INSTRUCTIONS]"
  unfolding handle_command_gm [OF assms(1)]
  by (rule gm_turn_sent [OF build_prompt_eq [OF assms(2)]])

theorem command_forwarded_in_lower_case_witness:
  "\<not> builtin (lower ''Open the DOOR'') \<and>
   sent (fst (handle_command no_reply ''Open the DOOR''
       \<lparr>rules = [], state = [], history = [], shared = []\<rparr>
       \<lparr>gm_prompt = Some ''GM'', save_file = None, transcript = [], shown = [], sent = []\<rparr>))
     = [prompt_head \<lparr>rules = [], state = [], history = [], shared = []\<rparr> ''GM''
          @ ''PLAYER_COMMAND:'' @ ''open the door'' @ nl @ nl @ INSTRUCTIONS]"
proof -
  have b: "\<not> builtin (lower ''Open the DOOR'')" by code_simp
  have l: "lower ''Open the DOOR'' = ''open the door''" by code_simp
  have g: "gm_prompt \<lparr>gm_prompt = Some ''GM'', save_file = None, transcript = [], shown = [], sent = []\<rparr>
             = Some ''GM''" by simp
  from command_forwarded_in_lower_case [OF b g, of no_reply "\<lparr>rules = [], state = [], history = [], shared = []\<rparr>"] b
  show ?thesis unfolding l by simp
qed

section \<open>Reading back what the encoder writes\<close>



subsection \<open>Strings\<close>







subsection \<open>Numbers\<close>

lemma takeWhile_hd: "t = [] \<or> \<not> P (hd t) \<Longrightarrow> takeWhile P t = []"
  by (cases t) auto

lemma takeWhile_all: "list_all P a \<Longrightarrow> t = [] \<or> \<not> P (hd t) \<Longrightarrow> takeWhile P (a @ t) = a"
  by (induction a) (simp_all add: takeWhile_hd)

lemma is_digit_simps [simp]:
  "\<not> is_digit CHR ''.''" "\<not> is_digit CHR ''e''" "\<not> is_digit CHR ''E''" "\<not> is_digit CHR ''-''"
  "\<not> is_digit CHR ''+''" "\<not> is_digit CHR '',''" "\<not> is_digit CHR '']''" "\<not> is_digit CHR ''}''"
  "\<not> is_digit CHR 0x0A" "is_digit CHR ''0''"
  by (simp_all add: is_digit_def)

lemma delim_head:
  "delim t \<Longrightarrow> t = [] \<or> (\<not> is_digit (hd t) \<and> hd t \<noteq> CHR ''.'' \<and> hd t \<noteq> CHR ''e'' \<and> hd t \<noteq> CHR ''E''
     \<and> hd t \<noteq> CHR ''-'' \<and> hd t \<noteq> CHR ''+'')"
  by (cases t) (auto simp: delim_def)

lemma int_digits_head: "int_digits ds \<Longrightarrow> ds \<noteq> [] \<and> is_digit (hd ds) \<and> list_all is_digit ds"
  by (cases ds) (auto simp: int_digits_def)

lemma num_sign_parts:
  assumes "sign_part sg" and "int_digits ds"
  shows "num_sign (sg @ ds @ t) = sg"
proof -
  from int_digits_head [OF assms(2)] obtain d ds' where ds: "ds = d # ds'" and d: "is_digit d"
    by (cases ds) auto
  from d have "d \<noteq> CHR ''-''" by auto
  with assms(1) ds show ?thesis by (auto simp: sign_part_def num_sign_def)
qed

lemma num_int_parts:
  assumes "int_digits ds" and "t = [] \<or> \<not> is_digit (hd t)"
  shows "num_int (ds @ t) = ds"
proof (cases "ds = ''0''")
  case True
  then show ?thesis by (simp add: num_int_def)
next
  case False
  with assms(1) have a: "ds \<noteq> []" "list_all is_digit ds" "hd ds \<noteq> CHR ''0''"
    by (simp_all add: int_digits_def)
  then have "take 1 (ds @ t) \<noteq> ''0''" by (cases ds) auto
  then show ?thesis using takeWhile_all [OF a(2) assms(2)] by (simp add: num_int_def)
qed

lemma num_frac_parts:
  assumes "frac_part fr" and "t = [] \<or> (\<not> is_digit (hd t) \<and> hd t \<noteq> CHR ''.'')"
  shows "num_frac (fr @ t) = fr"
proof (cases "fr = []")
  case True
  with assms(2) show ?thesis by (cases t) (auto simp: num_frac_def)
next
  case False
  with assms(1) obtain fd where fr: "fr = CHR ''.'' # fd" and fd: "fd \<noteq> []" "list_all is_digit fd"
    by (cases fr) (auto simp: frac_part_def)
  from assms(2) have "t = [] \<or> \<not> is_digit (hd t)" by blast
  from takeWhile_all [OF fd(2) this] fd(1) show ?thesis
    by (simp add: num_frac_def fr)
qed

lemma num_exp_parts:
  assumes "exp_part ex" and "delim t"
  shows "num_exp (ex @ t) = ex"
proof (cases "ex = []")
  case True
  with delim_head [OF assms(2)] show ?thesis by (cases t) (auto simp: num_exp_def)
next
  case False
  with assms(1) obtain e r where ex: "ex = e # r" and e: "e = CHR ''e'' \<or> e = CHR ''E''"
    and r: "exp_digits r \<noteq> []" "list_all is_digit (exp_digits r)"
    by (cases ex) (auto simp: exp_part_def)
  from delim_head [OF assms(2)] have dt: "t = [] \<or> \<not> is_digit (hd t)" by blast
  show ?thesis
  proof (cases "r \<noteq> [] \<and> (hd r = CHR ''+'' \<or> hd r = CHR ''-'')")
    case True
    then obtain s r' where rr: "r = s # r'" and s: "s = CHR ''+'' \<or> s = CHR ''-''"
      by (cases r) auto
    with r have r': "r' \<noteq> []" "list_all is_digit r'" by (simp_all add: exp_digits_def)
    from takeWhile_all [OF r'(2) dt] e s r'(1) show ?thesis
      by (auto simp: num_exp_def ex rr Let_def)
  next
    case False
    with r have r': "r \<noteq> []" "list_all is_digit r" by (simp_all add: exp_digits_def)
    from r'(1) obtain d r2 where rr: "r = d # r2" by (cases r) auto
    from r' False rr have h: "d \<noteq> CHR ''+''" "d \<noteq> CHR ''-''" by auto
    from r'(2) rr have dd: "is_digit d" and r2: "list_all is_digit r2" by simp_all
    note td = takeWhile_all [OF r2 dt]
    from e h dd show ?thesis
      by (auto simp: num_exp_def ex rr Let_def td)
  qed
qed

lemma match_number_parts:
  assumes "sign_part sg" and "int_digits ds" and "frac_part fr" and "exp_part ex" and "delim rest"
  shows "match_number (sg @ ds @ fr @ ex @ rest) = Some (sg @ ds, fr, ex, rest)"
proof -
  note dh = delim_head [OF assms(5)]
  have t1: "fr @ ex @ rest = [] \<or> \<not> is_digit (hd (fr @ ex @ rest))"
  proof (cases "fr = []")
    case False
    with assms(3) show ?thesis by (cases fr) (auto simp: frac_part_def)
  next
    case True
    show ?thesis
    proof (cases "ex = []")
      case False
      with assms(4) True show ?thesis by (cases ex) (auto simp: exp_part_def)
    next
      case True
      with \<open>fr = []\<close> dh show ?thesis by auto
    qed
  qed
  have t2: "ex @ rest = [] \<or> (\<not> is_digit (hd (ex @ rest)) \<and> hd (ex @ rest) \<noteq> CHR ''.'')"
  proof (cases "ex = []")
    case False
    with assms(4) show ?thesis by (cases ex) (auto simp: exp_part_def)
  next
    case True
    with dh show ?thesis by auto
  qed
  have a: "num_sign (sg @ ds @ fr @ ex @ rest) = sg"
    by (rule num_sign_parts [OF assms(1,2)])
  have b: "num_int (ds @ fr @ ex @ rest) = ds"
    by (rule num_int_parts [OF assms(2) t1])
  have c: "num_frac (fr @ ex @ rest) = fr"
    by (rule num_frac_parts [OF assms(3) t2])
  have d: "num_exp (ex @ rest) = ex"
    by (rule num_exp_parts [OF assms(4,5)])
  from int_digits_head [OF assms(2)] have ne: "ds \<noteq> []" by simp
  have d1: "drop (length sg) (sg @ ds @ fr @ ex @ rest) = ds @ fr @ ex @ rest" by simp
  have d2: "drop (length sg + length ds) (sg @ ds @ fr @ ex @ rest) = fr @ ex @ rest" by simp
  have d3: "drop (length sg + length ds + length fr) (sg @ ds @ fr @ ex @ rest) = ex @ rest" by simp
  have d4: "drop (length sg + length ds + length fr + length ex) (sg @ ds @ fr @ ex @ rest) = rest"
    by simp
  show ?thesis
    unfolding match_number_def a Let_def d1 b d2 c d3 d d4 using ne by simp
qed









lemma is_digit_letters [simp]:
  "\<not> is_digit CHR ''n''" "\<not> is_digit CHR ''t''" "\<not> is_digit CHR ''f''" "\<not> is_digit CHR ''N''"
  "\<not> is_digit CHR ''I''" "\<not> is_digit CHR ''\"''" "\<not> is_digit CHR ''{''" "\<not> is_digit CHR ''[''"
  "\<not> is_digit CHR '' ''" "\<not> is_digit CHR 0x09" "\<not> is_digit CHR 0x0D"
  by (simp_all add: is_digit_def)


lemma prefix_drop: "prefix p t \<Longrightarrow> t = p @ drop (length p) t"
  by (auto simp: prefix_def)

lemma num_sign_props: "sign_part (num_sign s) \<and> prefix (num_sign s) s"
  by (cases s) (auto simp: num_sign_def sign_part_def)

lemma num_int_props:
  assumes "num_int t \<noteq> []"
  shows "int_digits (num_int t) \<and> prefix (num_int t) t"
proof (cases "take 1 t = ''0''")
  case True
  then obtain t' where "t = CHR ''0'' # t'" by (cases t) auto
  then show ?thesis by (simp add: num_int_def int_digits_def)
next
  case False
  with assms have n: "takeWhile is_digit t \<noteq> []" and e: "num_int t = takeWhile is_digit t"
    by (simp_all add: num_int_def)
  from n obtain c t' where t: "t = c # t'" and c: "is_digit c" by (cases t) (auto split: if_splits)
  with False have "c \<noteq> CHR ''0''" by simp
  with t c have "hd (takeWhile is_digit t) \<noteq> CHR ''0''" by simp
  moreover have "list_all is_digit (takeWhile is_digit t)"
    by (simp add: list_all_iff) (meson set_takeWhileD)
  ultimately show ?thesis
    unfolding e using n by (simp add: int_digits_def takeWhile_is_prefix)
qed

lemma list_all_takeWhile: "list_all P (takeWhile P xs)"
  by (simp add: list_all_iff) (meson set_takeWhileD)

lemma num_frac_props: "frac_part (num_frac t) \<and> prefix (num_frac t) t"
proof (cases "take 1 t = ''.'' \<and> takeWhile is_digit (drop 1 t) \<noteq> []")
  case True
  then obtain t' where t: "t = CHR ''.'' # t'" by (cases t) auto
  with True show ?thesis
    by (simp add: num_frac_def frac_part_def list_all_takeWhile takeWhile_is_prefix)
next
  case False
  then show ?thesis by (auto simp: num_frac_def frac_part_def)
qed

lemma num_exp_props: "exp_part (num_exp t) \<and> prefix (num_exp t) t"
proof (cases "num_exp t = []")
  case True
  then show ?thesis by (simp add: exp_part_def)
next
  case False
  let ?e = "takeWhile (\<lambda>c. c = CHR ''e'' \<or> c = CHR ''E'') (take 1 t)"
  let ?es = "takeWhile (\<lambda>c. c = CHR ''+'' \<or> c = CHR ''-'') (take 1 (drop 1 t))"
  let ?ed = "takeWhile is_digit (drop (1 + length ?es) t)"
  from False have ne: "?e \<noteq> []" "?ed \<noteq> []" and eq: "num_exp t = ?e @ ?es @ ?ed"
    by (auto simp: num_exp_def Let_def split: if_splits)
  from ne(1) obtain c t' where t: "t = c # t'" and c: "c = CHR ''e'' \<or> c = CHR ''E''"
    by (cases t) (auto split: if_splits)
  then have e: "?e = [c]" by auto
  show ?thesis
  proof (cases "t' \<noteq> [] \<and> (hd t' = CHR ''+'' \<or> hd t' = CHR ''-'')")
    case True
    then obtain s t2 where t2: "t' = s # t2" and s: "s = CHR ''+'' \<or> s = CHR ''-''"
      by (cases t') auto
    then have es: "?es = [s]" using t by auto
    have ed: "?ed = takeWhile is_digit t2" using s by (auto simp: t t2)
    from ne(2) have n2: "takeWhile is_digit t2 \<noteq> []" unfolding ed .
    have "num_exp t = ?e @ ?es @ takeWhile is_digit t2" by (simp only: eq ed)
    then have "num_exp t = c # s # takeWhile is_digit t2" by (simp only: e es) simp
    with c s n2 t t2 show ?thesis
      by (auto simp: exp_part_def exp_digits_def list_all_takeWhile takeWhile_is_prefix)
  next
    case False
    then have es: "?es = []" using t by (cases t') auto
    have ed: "?ed = takeWhile is_digit t'" using False by (cases t') (auto simp: t)
    from ne(2) have n2: "takeWhile is_digit t' \<noteq> []" unfolding ed .
    then obtain d t2 where t2: "t' = d # t2" and d: "is_digit d"
      by (cases t') (auto split: if_splits)
    from d have ds: "d \<noteq> CHR ''+''" "d \<noteq> CHR ''-''" by auto
    have "num_exp t = ?e @ ?es @ takeWhile is_digit t'" by (simp only: eq ed)
    then have "num_exp t = c # takeWhile is_digit t'" by (simp only: e es) simp
    with c n2 t t2 d ds show ?thesis
      by (auto simp: exp_part_def exp_digits_def list_all_takeWhile takeWhile_is_prefix)
  qed
qed

lemma match_number_decompose:
  assumes "match_number s = Some (ip, fr, ex, r)"
  shows "s = ip @ fr @ ex @ r \<and> (\<exists>sg ds. ip = sg @ ds \<and> sign_part sg \<and> int_digits ds)
           \<and> frac_part fr \<and> exp_part ex"
proof -
  let ?sg = "num_sign s"
  let ?t1 = "drop (length ?sg) s"
  let ?ds = "num_int ?t1"
  let ?t2 = "drop (length ?sg + length ?ds) s"
  let ?fr = "num_frac ?t2"
  let ?t3 = "drop (length ?sg + length ?ds + length ?fr) s"
  let ?ex = "num_exp ?t3"
  from assms have ne: "?ds \<noteq> []" and ip: "ip = ?sg @ ?ds" and fr: "fr = ?fr" and ex: "ex = ?ex"
    and r: "r = drop (length ?sg + length ?ds + length ?fr + length ?ex) s"
    by (auto simp: match_number_def Let_def split: if_splits)
  from num_sign_props [of s] have s1: "s = ?sg @ ?t1" and sp: "sign_part ?sg"
    by (auto dest: prefix_drop)
  from num_int_props [OF ne] have s2: "?t1 = ?ds @ drop (length ?ds) ?t1" and ip': "int_digits ?ds"
    by (auto dest: prefix_drop)
  have t2: "drop (length ?ds) ?t1 = ?t2" by (simp add: add.commute)
  from num_frac_props [of ?t2] have s3: "?t2 = ?fr @ drop (length ?fr) ?t2" and fp: "frac_part ?fr"
    by (auto dest: prefix_drop)
  have t3: "drop (length ?fr) ?t2 = ?t3" by (simp add: add.commute)
  from num_exp_props [of ?t3] have s4: "?t3 = ?ex @ drop (length ?ex) ?t3" and ep: "exp_part ?ex"
    by (auto dest: prefix_drop)
  have t4: "drop (length ?ex) ?t3 = r" unfolding r by (simp add: add.commute)
  have "s = ?sg @ ?ds @ ?fr @ ?ex @ r"
    using s1 s2 s3 s4 unfolding t2 t3 t4 by metis
  with ip fr ex sp ip' fp ep show ?thesis by auto
qed





subsection \<open>Where a value starts and where it ends\<close>




lemma json_ws_simps [simp]:
  "\<not> json_ws CHR '',''" "\<not> json_ws CHR '']''" "\<not> json_ws CHR ''}''" "\<not> json_ws CHR ''\"''"
  "\<not> json_ws CHR '':''" "\<not> json_ws CHR ''[''" "\<not> json_ws CHR ''{''" "\<not> json_ws CHR ''-''"
  "\<not> json_ws CHR ''n''" "\<not> json_ws CHR ''t''" "\<not> json_ws CHR ''f''" "\<not> json_ws CHR ''N''"
  "\<not> json_ws CHR ''I''"
  by (simp_all add: json_ws_def)











subsection \<open>Lists and dictionaries\<close>














subsection \<open>The round trip\<close>



section \<open>The values the engine holds\<close>

text \<open>
  The decoder returns only values that \<open>json_ok\<close> accepts, the mutator keeps the
  state such a value, and so does every command of the engine: a state that comes from
  rules read by \<^verbatim>\<open>json.loads\<close> stays one through the session.
\<close>

subsection \<open>The decoder\<close>

lemma scan_scalar_ok:
  assumes "scan_scalar s = Inr (v, r)"
  shows "json_ok v"
proof (cases "match_number s")
  case None
  with assms show ?thesis
    by (auto simp: scan_scalar_def float_lexeme_def split: if_splits)
next
  case (Some m)
  obtain ip fr ex r' where m: "m = (ip, fr, ex, r')" by (cases m) auto
  note mn = Some [unfolded m]
  show ?thesis
  proof (cases "fr \<noteq> [] \<or> ex \<noteq> []")
    case False
    with assms mn show ?thesis by (auto simp: scan_scalar_def split: if_splits)
  next
    case True
    from match_number_decompose [OF mn] obtain sg ds where
      p: "ip = sg @ ds" "sign_part sg" "int_digits ds" "frac_part fr" "exp_part ex" by blast
    have "delim []" by (simp add: delim_def)
    from match_number_parts [OF p(2-5) this]
    have "match_number (ip @ fr @ ex) = Some (ip, fr, ex, [])" using p(1) by simp
    with True have "float_lexeme (ip @ fr @ ex)" by (simp add: float_lexeme_def)
    with assms mn True show ?thesis by (auto simp: scan_scalar_def split: if_splits)
  qed
qed

lemma set_update_subset: "set (AList.update k v al) \<subseteq> insert (k, v) (set al)"
  by (induction al) auto

lemma dict_set_ok:
  assumes "json_ok (JObject acc)" and "json_ok v"
  shows "json_ok (JObject (dict_set acc k v))"
proof -
  from assms(1) have "distinct (map fst (dict_set acc k v))"
    by (simp add: dict_set_def distinct_update)
  moreover have "\<forall>kv \<in> set (dict_set acc k v). json_ok (snd kv)"
    using assms set_update_subset [of k v acc] by (auto simp: dict_set_def)
  ultimately show ?thesis by simp
qed

lemma parse_ok:
  "parse_value f s = Inr (v, r) \<Longrightarrow> json_ok v"
  "parse_elems f acc s = Inr (v, r) \<Longrightarrow> \<forall>x \<in> set acc. json_ok x \<Longrightarrow> json_ok v"
  "parse_members f accd s = Inr (v, r) \<Longrightarrow> json_ok (JObject accd) \<Longrightarrow> json_ok v"
proof (induction f s and f acc s and f accd s arbitrary: v r and v r and v r
       rule: parse_value_parse_elems_parse_members.induct)
  case (1 s)
  then show ?case by simp
next
  case (2 n s)
  show ?case
  proof (cases s)
    case Nil
    with "2.prems" show ?thesis by simp
  next
    case (Cons c cs)
    consider (str) "c = CHR ''\"''" | (obj) "c \<noteq> CHR ''\"''" "c = CHR ''{''"
      | (arr) "c \<noteq> CHR ''\"''" "c \<noteq> CHR ''{''" "c = CHR ''[''"
      | (sc) "c \<noteq> CHR ''\"''" "c \<noteq> CHR ''{''" "c \<noteq> CHR ''[''" by blast
    then show ?thesis
    proof cases
      case str
      with Cons "2.prems" show ?thesis by (auto split: sum.splits)
    next
      case obj
      show ?thesis
      proof (cases "skip_ws cs")
        case Nil
        with obj Cons "2.prems" show ?thesis by simp
      next
        case (Cons d r0)
        show ?thesis
        proof (cases "d = CHR ''}''")
          case True
          with obj Cons \<open>s = c # cs\<close> "2.prems" show ?thesis by auto
        next
          case nb: False
          show ?thesis
          proof (cases "d = CHR ''\"''")
            case True
            with nb obj Cons \<open>s = c # cs\<close> "2.prems"
            have "parse_members n [] r0 = Inr (v, r)" by simp
            from "2.IH"(1) [OF \<open>s = c # cs\<close> obj(1) obj(2) Cons nb True this]
            show ?thesis by simp
          next
            case False
            with nb obj Cons \<open>s = c # cs\<close> "2.prems" show ?thesis by simp
          qed
        qed
      qed
    next
      case arr
      show ?thesis
      proof (cases "skip_ws cs")
        case Nil
        with arr Cons "2.prems" show ?thesis by simp
      next
        case (Cons d r0)
        show ?thesis
        proof (cases "d = CHR '']''")
          case True
          with arr Cons \<open>s = c # cs\<close> "2.prems" show ?thesis by auto
        next
          case nb: False
          with arr Cons \<open>s = c # cs\<close> "2.prems"
          have "parse_elems n [] (d # r0) = Inr (v, r)" by simp
          from "2.IH"(2) [OF \<open>s = c # cs\<close> arr(1) arr(2) arr(3) Cons nb this]
          show ?thesis by simp
        qed
      qed
    next
      case sc
      with Cons "2.prems" have "scan_scalar s = Inr (v, r)" by simp
      then show ?thesis by (rule scan_scalar_ok)
    qed
  qed
next
  case (3 acc s)
  then show ?case by simp
next
  case (4 n acc s)
  from "4.prems"(1) obtain v1 r1 where p: "parse_value n s = Inr (v1, r1)"
    by (auto split: sum.splits)
  from "4.IH"(1) [OF p] have o1: "json_ok v1" .
  with "4.prems"(2) have oa: "\<forall>x \<in> set (acc @ [v1]). json_ok x" by simp
  show ?case
  proof (cases "skip_ws r1")
    case Nil
    with p "4.prems" show ?thesis by simp
  next
    case (Cons d r')
    show ?thesis
    proof (cases "d = CHR '']''")
      case True
      with p Cons "4.prems"(1) have "v = JArray (acc @ [v1])" by simp
      with oa show ?thesis by simp
    next
      case nb: False
      show ?thesis
      proof (cases "d = CHR '',''")
        case True
        with nb p Cons "4.prems"
        have "parse_elems n (acc @ [v1]) (skip_ws r') = Inr (v, r)" by simp
        from "4.IH"(2) [OF p refl Cons nb True this oa] show ?thesis .
      next
        case False
        with nb p Cons "4.prems" show ?thesis by simp
      qed
    qed
  qed
next
  case (5 acc s)
  then show ?case by simp
next
  case (6 n acc s)
  from "6.prems"(1) obtain k r0 where sc: "scanstring s = Inr (k, r0)"
    by (auto split: sum.splits)
  show ?case
  proof (cases "skip_ws r0")
    case Nil
    with sc "6.prems" show ?thesis by simp
  next
    case (Cons d r1)
    show ?thesis
    proof (cases "d = CHR '':''")
      case False
      with sc Cons "6.prems" show ?thesis by simp
    next
      case col: True
      then have ncol: "\<not> d \<noteq> CHR '':''" by simp
      from col sc Cons "6.prems"(1) obtain v2 r2 where
        p: "parse_value n (skip_ws r1) = Inr (v2, r2)"
        by (auto split: sum.splits)
      from "6.IH"(1) [OF sc refl Cons ncol p] have o2: "json_ok v2" .
      from dict_set_ok [OF "6.prems"(2) o2] have od: "json_ok (JObject (dict_set acc k v2))" .
      show ?thesis
      proof (cases "skip_ws r2")
        case Nil
        with col sc Cons p "6.prems" show ?thesis by simp
      next
        case c3: (Cons d' r3)
        show ?thesis
        proof (cases "d' = CHR ''}''")
          case True
          with col sc Cons p c3 "6.prems"(1) have "v = JObject (dict_set acc k v2)" by simp
          with od show ?thesis by simp
        next
          case nb: False
          show ?thesis
          proof (cases "d' = CHR '',''")
            case False
            with nb col sc Cons p c3 "6.prems" show ?thesis by simp
          next
            case com: True
            show ?thesis
            proof (cases "skip_ws r3")
              case Nil
              with com nb col sc Cons p c3 "6.prems" show ?thesis by simp
            next
              case c4: (Cons q r4)
              show ?thesis
              proof (cases "q = CHR ''\"''")
                case False
                with com nb col sc Cons p c3 c4 "6.prems" show ?thesis by simp
              next
                case True
                with com nb col sc Cons p c3 c4 "6.prems"(1)
                have "parse_members n (dict_set acc k v2) r4 = Inr (v, r)" by simp
                from "6.IH"(2) [OF sc refl Cons ncol p refl c3 nb com c4 True this od]
                show ?thesis .
              qed
            qed
          qed
        qed
      qed
    qed
  qed
qed

lemma json_loads_ok:
  assumes "json_loads inp = Inr v"
  shows "json_ok v"
proof -
  from assms obtain r where "parse_value (2 * length inp + 2) (skip_ws inp) = Inr (v, r)"
    by (auto simp: json_loads_def split: sum.splits if_splits)
  then show ?thesis by (rule parse_ok(1))
qed

subsection \<open>The mutator\<close>

lemma dict_get_ok:
  assumes "json_ok (JObject st)" and "dict_get st k = Some v"
  shows "json_ok v"
proof -
  from assms(2) have "(k, v) \<in> set st" by (simp add: dict_get_def map_of_SomeD)
  with assms(1) show ?thesis by auto
qed

lemma setdefault_ok:
  assumes "json_ok (JObject st)" and "json_ok d" and "setdefault st k d = (st', v)"
  shows "json_ok (JObject st') \<and> json_ok v"
proof (cases "dict_get st k")
  case None
  with assms(3) have "st' = dict_set st k d" "v = d" by (auto simp: setdefault_def)
  with dict_set_ok [OF assms(1,2)] assms(2) show ?thesis by simp
next
  case (Some x)
  with assms(3) have "st' = st" "v = x" by (auto simp: setdefault_def)
  with assms(1) dict_get_ok [OF assms(1) Some] show ?thesis by simp
qed

lemma set_flag_true_ok:
  assumes "json_ok (JObject st)" and "set_flag_true st flag = Inr st'"
  shows "json_ok (JObject st')"
proof -
  obtain st1 v where sd: "setdefault st ''flags'' (JObject []) = (st1, v)" by (cases "setdefault st ''flags'' (JObject [])") auto
  have "json_ok (JObject [])" by simp
  from setdefault_ok [OF assms(1) this sd] have o1: "json_ok (JObject st1)" and ov: "json_ok v" by simp_all
  from assms(2) sd obtain fl where v: "v = JObject fl"
    and st': "st' = dict_set st1 ''flags'' (JObject (dict_set fl flag (JBool True)))"
    by (auto simp: set_flag_true_def split: json.splits)
  have "json_ok (JBool True)" by simp
  from dict_set_ok [OF ov [unfolded v] this] have "json_ok (JObject (dict_set fl flag (JBool True)))" .
  from dict_set_ok [OF o1 this] show ?thesis unfolding st' .
qed

lemma append_if_absent_ok:
  assumes "json_ok items" and "append_if_absent items x = Inr items'"
  shows "json_ok items'"
  using assms by (cases items) (auto split: if_splits)

lemma remove_if_present_ok:
  assumes "json_ok items" and "remove_if_present items x = Inr items'"
  shows "json_ok items'"
proof (cases items)
  case (JArray xs)
  with assms(2) have i: "items' = JArray (remove1 (JString x) xs)" by simp
  have "set (remove1 (JString x) xs) \<subseteq> set xs" by (rule set_remove1_subset)
  with assms(1) JArray show ?thesis unfolding i by auto
qed (use assms in \<open>auto split: if_splits\<close>)

lemma apply_atom_ok:
  assumes ok: "json_ok (JObject st)" and ap: "apply_atom st atom = Inr st'"
  shows "json_ok (JObject st')"
proof -
  consider (mv) "startswith atom ''move_to:''"
    | (add) "\<not> startswith atom ''move_to:''" "startswith atom ''add_item:''"
    | (rem) "\<not> startswith atom ''move_to:''" "\<not> startswith atom ''add_item:''"
            "startswith atom ''remove_item:''"
    | (flag) "\<not> startswith atom ''move_to:''" "\<not> startswith atom ''add_item:''"
            "\<not> startswith atom ''remove_item:''" "startswith atom ''set_flag:''"
    | (hp) "\<not> startswith atom ''move_to:''" "\<not> startswith atom ''add_item:''"
            "\<not> startswith atom ''remove_item:''" "\<not> startswith atom ''set_flag:''"
            "startswith atom ''hp_delta:''"
    | (other) "\<not> startswith atom ''move_to:''" "\<not> startswith atom ''add_item:''"
            "\<not> startswith atom ''remove_item:''" "\<not> startswith atom ''set_flag:''"
            "\<not> startswith atom ''hp_delta:''"
    by blast
  then show ?thesis
  proof cases
    case mv
    with ap obtain p where "st' = dict_set st ''location'' (JString (strip p))"
      by (auto simp: apply_atom_def split: sum.splits)
    with dict_set_ok [OF ok, of "JString (strip p)" "''location''"] show ?thesis by simp
  next
    case add
    with ap obtain p st1 items inv' where
      sd: "setdefault st ''inventory'' (JArray []) = (st1, items)"
      and ai: "append_if_absent items (strip p) = Inr inv'"
      and st': "st' = dict_set st1 ''inventory'' inv'"
      by (auto simp: apply_atom_def split: sum.splits prod.splits)
    have "json_ok (JArray [])" by simp
    from setdefault_ok [OF ok this sd] have o1: "json_ok (JObject st1)" and oi: "json_ok items"
      by simp_all
    from dict_set_ok [OF o1 append_if_absent_ok [OF oi ai]] show ?thesis unfolding st' .
  next
    case rem
    show ?thesis
    proof (cases "dict_get st ''inventory''")
      case None
      with rem ap have "st' = st" by (auto simp: apply_atom_def split: sum.splits)
      with ok show ?thesis by simp
    next
      case (Some items)
      with rem ap obtain p inv' where ri: "remove_if_present items (strip p) = Inr inv'"
        and st': "st' = dict_set st ''inventory'' inv'"
        by (auto simp: apply_atom_def split: sum.splits)
      from dict_set_ok [OF ok remove_if_present_ok [OF dict_get_ok [OF ok Some] ri]]
      show ?thesis unfolding st' .
    qed
  next
    case flag
    with ap obtain p where "set_flag_true st (strip p) = Inr st'"
      by (auto simp: apply_atom_def split: sum.splits)
    from set_flag_true_ok [OF ok this] show ?thesis .
  next
    case hp
    with ap obtain h where
      alt: "st' = dict_set st ''hp'' (JInt h) \<or> set_flag_true (dict_set st ''hp'' (JInt h)) ''hp_zero'' = Inr st'"
      by (auto simp: apply_atom_def Let_def split: sum.splits if_splits)
    have o1: "json_ok (JObject (dict_set st ''hp'' (JInt h)))" by (rule dict_set_ok [OF ok]) simp
    from alt show ?thesis
    proof
      assume "st' = dict_set st ''hp'' (JInt h)"
      with o1 show ?thesis by simp
    next
      assume "set_flag_true (dict_set st ''hp'' (JInt h)) ''hp_zero'' = Inr st'"
      from set_flag_true_ok [OF o1 this] show ?thesis .
    qed
  next
    case other
    with ap have "st' = st" by (simp add: apply_atom_def)
    with ok show ?thesis by simp
  qed
qed

lemma apply_items_ok:
  "json_ok (JObject st) \<Longrightarrow> apply_items st xs = Inr st' \<Longrightarrow> json_ok (JObject st')"
proof (induction xs arbitrary: st)
  case Nil
  then show ?case by simp
next
  case (Cons x xs)
  from Cons.prems(2) obtain st1 where a: "apply_item st x = Inr st1" and r: "apply_items st1 xs = Inr st'"
    by (auto split: sum.splits)
  from a obtain atom where "x = JString atom" and "apply_atom st atom = Inr st1"
    by (cases x) auto
  from apply_atom_ok [OF Cons.prems(1) this(2)] have "json_ok (JObject st1)" .
  from Cons.IH [OF this r] show ?case .
qed

lemma bump_turns_ok:
  assumes "json_ok (JObject st)" and "bump_turns st = Inr st'"
  shows "json_ok (JObject st')"
proof -
  from assms(2) obtain t where "st' = dict_set st ''turns'' (JInt t)"
    by (auto simp: bump_turns_def split: sum.splits)
  with dict_set_ok [OF assms(1), of "JInt t" "''turns''"] show ?thesis by simp
qed

lemma apply_state_changes_ok:
  assumes "json_ok (JObject st)" and "apply_state_changes st changes = Inr st'"
  shows "json_ok (JObject st')"
proof -
  from assms(2) obtain items st1 where "apply_items st items = Inr st1" and b: "bump_turns st1 = Inr st'"
    by (auto simp: apply_state_changes_def split: sum.splits)
  from apply_items_ok [OF assms(1) this(1)] have "json_ok (JObject st1)" .
  from bump_turns_ok [OF this b] show ?thesis .
qed

subsection \<open>The engine\<close>

lemma engine_init_ok:
  assumes "json_ok (JObject rs)" and "engine_init rs = Inr e"
  shows "json_ok (JObject (state e))"
proof (cases "dict_get rs ''START''")
  case None
  with assms(2) show ?thesis
    by (auto simp: engine_init_def dict_get_default_def)
next
  case (Some v)
  from dict_get_ok [OF assms(1) Some] have "json_ok v" .
  with Some assms(2) show ?thesis
    by (auto simp: engine_init_def dict_get_default_def split: json.splits)
qed

lemma gm_turn_state:
  assumes "gm_turn run cmd e w = (w', Returned e')"
  shows "\<exists>changes. apply_state_changes (state e) changes = Inr (state e')"
  using assms
  by (auto simp: gm_turn_def Let_def split: option.splits sum.splits json.splits)

lemma handle_command_ok:
  assumes ok: "json_ok (JObject (state e))" and h: "handle_command run cmd0 e w = (w', Returned e')"
  shows "json_ok (JObject (state e'))"
proof (cases "builtin (lower cmd0)")
  case False
  from h [unfolded handle_command_gm [OF False]] gm_turn_state
  obtain changes where "apply_state_changes (state e) changes = Inr (state e')" by blast
  from apply_state_changes_ok [OF ok this] show ?thesis .
next
  case True
  show ?thesis
  proof (cases "lower cmd0 = ''load''")
    case False
    with True h have "e' = e"
      by (auto simp: handle_command_def builtin_def Let_def split: sum.splits)
    with ok show ?thesis by simp
  next
    case True
    show ?thesis
    proof (cases "save_file w")
      case None
      with True h have "e' = e" by (simp add: handle_command_def Let_def)
      with ok show ?thesis by simp
    next
      case (Some content)
      with True h obtain st where l: "json_loads content = Inr (JObject st)" and e': "state e' = st"
        by (auto simp: handle_command_def Let_def load_json_def split: sum.splits json.splits)
      from json_loads_ok [OF l] show ?thesis unfolding e' .
    qed
  qed
qed

section \<open>Saving and loading\<close>






text \<open>
  The file that \<^verbatim>\<open>save\<close> writes for a state with all five keys and one more, as
  \<^verbatim>\<open>json.dump\<close> with \<^verbatim>\<open>indent=2\<close> lays it out, and what the decoder reads from it.
\<close>

lemma save_file_example:
  "save_file (fst (handle_command no_reply ''save''
       \<lparr>rules = [],
        state = [(''location'', JString ''cave''),
                 (''inventory'', JArray [JString ''sword'', JString ''lamp'']),
                 (''flags'', JObject [(''door_open'', JBool True), (''hp_zero'', JBool False)]),
                 (''hp'', JInt (- 5)), (''turns'', JInt 3), (''gold'', JFloat ''1.5'')],
        history = [], shared = []\<rparr>
       \<lparr>gm_prompt = None, save_file = None, transcript = [], shown = [], sent = []\<rparr>))
     = Some (''{'' @ nl @
        ''  \"location\": \"cave\",'' @ nl @
        ''  \"inventory\": ['' @ nl @
        ''    \"sword\",'' @ nl @
        ''    \"lamp\"'' @ nl @
        ''  ],'' @ nl @
        ''  \"flags\": {'' @ nl @
        ''    \"door_open\": true,'' @ nl @
        ''    \"hp_zero\": false'' @ nl @
        ''  },'' @ nl @
        ''  \"hp\": -5,'' @ nl @
        ''  \"turns\": 3,'' @ nl @
        ''  \"gold\": 1.5'' @ nl @
        ''}'')"
  by code_simp

lemma load_file_example:
  "json_loads (''{'' @ nl @
        ''  \"location\": \"cave\",'' @ nl @
        ''  \"inventory\": ['' @ nl @
        ''    \"sword\",'' @ nl @
        ''    \"lamp\"'' @ nl @
        ''  ],'' @ nl @
        ''  \"flags\": {'' @ nl @
        ''    \"door_open\": true,'' @ nl @
        ''    \"hp_zero\": false'' @ nl @
        ''  },'' @ nl @
        ''  \"hp\": -5,'' @ nl @
        ''  \"turns\": 3,'' @ nl @
        ''  \"gold\": 1.5'' @ nl @
        ''}'')
     = Inr (JObject [(''location'', JString ''cave''),
                 (''inventory'', JArray [JString ''sword'', JString ''lamp'']),
                 (''flags'', JObject [(''door_open'', JBool True), (''hp_zero'', JBool False)]),
                 (''hp'', JInt (- 5)), (''turns'', JInt 3), (''gold'', JFloat ''1.5'')])"
  by code_simp




end
